theory Spec2Isabelle
  imports Main "HOL-Library.Word"
begin

unbundle bit_operations_syntax

section \<open>Values and failures\<close>

text \<open>
  Addresses, tag words and the statistics counters are \<open>uint64_t\<close>: 64-bit words, whose
  arithmetic wraps. The geometry (\<open>sets\<close>, \<open>ways\<close>, \<open>linesz\<close>, \<open>idx_shift\<close>) is
  \<open>size_t\<close>; it is kept as a natural number below \<open>2 ^ 64\<close>, and a product that can
  wrap is reduced modulo \<open>2 ^ 64\<close> where the code computes it.

  The ways a call can end without returning: \<open>help()\<close> prints the usage banner and calls
  \<open>exit(1)\<close>; a remainder by zero traps; a null pointer is dereferenced; an array is read
  outside its bounds; \<open>new[]\<close> is asked for more than \<open>SIZE_MAX\<close> bytes; \<open>atoi\<close> meets a
  number that does not fit an \<open>int\<close>.
\<close>

datatype error = Usage | DivByZero | NullDeref | OutOfBounds | BadAlloc | IntRange

definition VALID :: "64 word" where
  "VALID = push_bit 63 1"

definition DIRTY :: "64 word" where
  "DIRTY = push_bit 62 1"

section \<open>lfsr_t\<close>

text \<open>\<open>lfsr_t() : reg(1)\<close>; \<open>next()\<close> stores and returns
  \<open>(reg>>1)^(-(reg&1) & 0xd0000001)\<close> on \<open>uint32_t\<close>.\<close>

definition lfsr_new :: "32 word" where
  "lfsr_new = 1"

definition lfsr_next :: "32 word \<Rightarrow> 32 word" where
  "lfsr_next reg = (drop_bit 1 reg) XOR ((- (reg AND 1)) AND 0xd0000001)"

section \<open>cache_sim_t\<close>

text \<open>
  The fields of the class. \<open>miss_handler\<close> records whether a downstream cache is wired
  (the pointer is non-null); the calls made on it are returned by \<open>access\<close>, in program
  order, as triples \<open>(addr, bytes, store)\<close>. The processor handle \<open>proc\<close> is only read
  for the current program counter, which the Hawkeye hooks take as an argument.
\<close>

record cache_sim_t =
  lfsr :: "32 word"
  miss_handler :: bool
  sets :: nat
  ways :: nat
  linesz :: nat
  idx_shift :: nat
  tags :: "64 word list"
  read_accesses :: "64 word"
  read_misses :: "64 word"
  bytes_read :: "64 word"
  write_accesses :: "64 word"
  write_misses :: "64 word"
  bytes_written :: "64 word"
  writebacks :: "64 word"
  name :: string
  log :: bool

type_synonym call = "64 word \<times> nat \<times> bool"

text \<open>The loop of \<open>init\<close>: \<open>for (size_t x = linesz; x>1; x >>= 1) idx_shift++\<close>.\<close>

fun idx_shift_loop :: "nat \<Rightarrow> nat \<Rightarrow> nat" where
  "idx_shift_loop x s = (if 1 < x then idx_shift_loop (x div 2) (Suc s) else s)"

declare idx_shift_loop.simps [simp del]

text \<open>
  \<open>cache_sim_t(sets, ways, linesz, name)\<close>: the initialiser list sets the geometry, the
  name and \<open>log(false)\<close>, the LFSR is default-constructed, and the body calls \<open>init\<close>:
  the two validations, the shift, the zeroed tag array of \<open>sets*ways\<close> words (the
  product taken in \<open>size_t\<close>; \<open>new uint64_t[n]()\<close> throws when \<open>8 * n\<close> exceeds
  \<open>SIZE_MAX\<close>), the counters and the null miss handler. Running out of memory is not
  modelled.
\<close>

definition cache_sim_t_new :: "nat \<Rightarrow> nat \<Rightarrow> nat \<Rightarrow> string \<Rightarrow> error + cache_sim_t" where
  "cache_sim_t_new s w l nm =
     (if s = 0 \<or> (s AND (s - 1)) \<noteq> 0 then Inl Usage
      else if l < 8 \<or> (l AND (l - 1)) \<noteq> 0 then Inl Usage
      else let n = (s * w) mod 2 ^ 64 in
        if 2 ^ 61 \<le> n then Inl BadAlloc
        else Inr \<lparr>lfsr = lfsr_new, miss_handler = False,
                  sets = s, ways = w, linesz = l, idx_shift = idx_shift_loop l 0,
                  tags = replicate n 0,
                  read_accesses = 0, read_misses = 0, bytes_read = 0,
                  write_accesses = 0, write_misses = 0, bytes_written = 0,
                  writebacks = 0, name = nm, log = False\<rparr>)"

text \<open>
  The storage of an object before its constructor has run holds arbitrary values; the
  copy constructor takes it as \<open>raw\<close> and overwrites the members it initialises. Its
  initialiser list names \<open>sets\<close>, \<open>ways\<close>, \<open>linesz\<close>,
  \<open>idx_shift\<close>, \<open>name\<close> and \<open>log(false)\<close>; the LFSR, not named, is default-constructed;
  the body allocates \<open>sets*ways\<close> words and copies that many from \<open>rhs.tags\<close>. No other
  member is written, and \<open>init\<close> is not called.
\<close>

definition cache_sim_t_copy :: "cache_sim_t \<Rightarrow> cache_sim_t \<Rightarrow> cache_sim_t" where
  "cache_sim_t_copy raw rhs =
     raw\<lparr>sets := sets rhs, ways := ways rhs, linesz := linesz rhs,
         idx_shift := idx_shift rhs, name := name rhs, log := False, lfsr := lfsr_new,
         tags := map (\<lambda>i. tags rhs ! i) [0..<sets rhs * ways rhs]\<rparr>"

definition set_miss_handler :: "'a cache_sim_t_scheme \<Rightarrow> bool \<Rightarrow> 'a cache_sim_t_scheme" where
  "set_miss_handler c mh = c\<lparr>miss_handler := mh\<rparr>"

text \<open>\<open>idx = (addr >> idx_shift) & (sets-1)\<close>.\<close>

definition set_index :: "'a cache_sim_t_scheme \<Rightarrow> 64 word \<Rightarrow> nat" where
  "set_index c addr = unat (drop_bit (idx_shift c) addr AND (of_nat (sets c) - 1))"

text \<open>The tag word a line is installed with: \<open>(addr >> idx_shift) | VALID\<close>.\<close>

definition line_tag :: "'a cache_sim_t_scheme \<Rightarrow> 64 word \<Rightarrow> 64 word" where
  "line_tag c addr = drop_bit (idx_shift c) addr OR VALID"

text \<open>
  \<open>cache_sim_t::check_tag\<close>: the first way of the set whose tag word, DIRTY masked out,
  equals the tag. The returned pointer \<open>&tags[idx*ways + i]\<close> is the index into the tag
  array; \<open>NULL\<close> is \<open>None\<close>.
\<close>

definition check_tag :: "'a cache_sim_t_scheme \<Rightarrow> 64 word \<Rightarrow> nat option" where
  "check_tag c addr =
     (let idx = set_index c addr;
          tag = line_tag c addr
      in map_option (\<lambda>i. idx * ways c + i)
           (find (\<lambda>i. tag = (tags c ! (idx * ways c + i)) AND NOT DIRTY) [0..<ways c]))"

text \<open>\<open>cache_sim_t::victimize\<close>: the way is \<open>lfsr.next() % ways\<close>.\<close>

definition victimize ::
    "'a cache_sim_t_scheme \<Rightarrow> 64 word \<Rightarrow> error + (64 word \<times> 'a cache_sim_t_scheme)" where
  "victimize c addr =
     (let idx = set_index c addr;
          r = lfsr_next (lfsr c)
      in if ways c = 0 then Inl DivByZero
         else let way = unat r mod ways c;
                  victim = tags c ! (idx * ways c + way)
              in Inr (victim, c\<lparr>lfsr := r,
                                 tags := (tags c)[idx * ways c + way := line_tag c addr]\<rparr>))"

text \<open>Writing through a pointer into the tag array: \<open>*p |= DIRTY\<close>.\<close>

definition or_dirty :: "nat \<Rightarrow> 'a cache_sim_t_scheme \<Rightarrow> 'a cache_sim_t_scheme" where
  "or_dirty p c = c\<lparr>tags := (tags c)[p := (tags c ! p) OR DIRTY]\<rparr>"

text \<open>
  The pieces of \<open>cache_sim_t::access\<close>: the counters of the first two statements, the
  miss counter, the writeback of a victim that is VALID and DIRTY (the call on the miss
  handler, if there is one, and the counter), and the fill.
\<close>

definition count_access ::
    "'a cache_sim_t_scheme \<Rightarrow> 64 word \<Rightarrow> bool \<Rightarrow> 'a cache_sim_t_scheme" where
  "count_access c bytes store =
     (if store
      then c\<lparr>write_accesses := write_accesses c + 1, bytes_written := bytes_written c + bytes\<rparr>
      else c\<lparr>read_accesses := read_accesses c + 1, bytes_read := bytes_read c + bytes\<rparr>)"

definition count_miss :: "'a cache_sim_t_scheme \<Rightarrow> bool \<Rightarrow> 'a cache_sim_t_scheme" where
  "count_miss c store =
     (if store then c\<lparr>write_misses := write_misses c + 1\<rparr>
      else c\<lparr>read_misses := read_misses c + 1\<rparr>)"

definition valid_dirty :: "64 word \<Rightarrow> bool" where
  "valid_dirty victim = (victim AND (VALID OR DIRTY) = (VALID OR DIRTY))"

definition writeback_calls :: "'a cache_sim_t_scheme \<Rightarrow> 64 word \<Rightarrow> call list" where
  "writeback_calls c victim =
     (if valid_dirty victim \<and> miss_handler c
      then [(push_bit (idx_shift c) (victim AND NOT (VALID OR DIRTY)), linesz c, True)]
      else [])"

definition count_writeback :: "'a cache_sim_t_scheme \<Rightarrow> 64 word \<Rightarrow> 'a cache_sim_t_scheme" where
  "count_writeback c victim =
     (if valid_dirty victim then c\<lparr>writebacks := writebacks c + 1\<rparr> else c)"

definition fill_calls :: "'a cache_sim_t_scheme \<Rightarrow> 64 word \<Rightarrow> call list" where
  "fill_calls c addr =
     (if miss_handler c then [(addr AND NOT (of_nat (linesz c) - 1), linesz c, False)] else [])"

text \<open>
  \<open>cache_sim_t::access\<close>. The two virtual functions are the arguments \<open>chk\<close> and \<open>vic\<close>;
  \<open>wr\<close> writes DIRTY through the pointer \<open>chk\<close> returned. The result is the cache after
  the call and the calls made on the miss handler, in order. The log line written to
  \<open>std::cerr\<close> is not part of the state.
\<close>

definition access_with ::
    "('a cache_sim_t_scheme \<Rightarrow> 64 word \<Rightarrow> error + ('r option \<times> 'a cache_sim_t_scheme)) \<Rightarrow>
     ('a cache_sim_t_scheme \<Rightarrow> 64 word \<Rightarrow> error + (64 word \<times> 'a cache_sim_t_scheme)) \<Rightarrow>
     ('r \<Rightarrow> 'a cache_sim_t_scheme \<Rightarrow> 'a cache_sim_t_scheme) \<Rightarrow>
     'a cache_sim_t_scheme \<Rightarrow> 64 word \<Rightarrow> 64 word \<Rightarrow> bool \<Rightarrow>
     error + ('a cache_sim_t_scheme \<times> call list)" where
  "access_with chk vic wr c0 addr bytes store =
     (case chk (count_access c0 bytes store) addr of
        Inl e \<Rightarrow> Inl e
      | Inr (Some hit_way, c1) \<Rightarrow> Inr (if store then wr hit_way c1 else c1, [])
      | Inr (None, c1) \<Rightarrow>
         (case vic (count_miss c1 store) addr of
            Inl e \<Rightarrow> Inl e
          | Inr (victim, c2) \<Rightarrow>
             (let calls = writeback_calls c2 victim @ fill_calls c2 addr;
                  c3 = count_writeback c2 victim
              in if store then
                   (case chk c3 addr of
                      Inl e \<Rightarrow> Inl e
                    | Inr (None, c4) \<Rightarrow> Inl NullDeref
                    | Inr (Some p, c4) \<Rightarrow> Inr (wr p c4, calls))
                 else Inr (c3, calls))))"

text \<open>The default (random-evict) cache: the base class's own hooks.\<close>

definition access ::
    "cache_sim_t \<Rightarrow> 64 word \<Rightarrow> 64 word \<Rightarrow> bool \<Rightarrow> error + (cache_sim_t \<times> call list)" where
  "access = access_with (\<lambda>c a. Inr (check_tag c a, c)) victimize or_dirty"

section \<open>std::map\<close>

text \<open>
  A \<open>std::map\<close> is an association list kept in ascending key order, the order its
  iterators walk: \<open>find\<close> is \<open>map_of\<close>, \<open>size()\<close> is \<open>length\<close>, the entry \<open>n\<close> steps
  after \<open>begin()\<close> is the \<open>n\<close>-th element.
\<close>

text \<open>\<open>m[k] = v\<close>: overwrite the entry of \<open>k\<close>, or insert it in key order.\<close>

fun map_set :: "'k::linorder \<Rightarrow> 'v \<Rightarrow> ('k \<times> 'v) list \<Rightarrow> ('k \<times> 'v) list" where
  "map_set k v [] = [(k, v)]"
| "map_set k v ((k', v') # m) =
     (if k < k' then (k, v) # (k', v') # m
      else if k = k' then (k, v) # m
      else (k', v') # map_set k v m)"

text \<open>\<open>m.erase(it)\<close> for the iterator \<open>n\<close> steps after \<open>begin()\<close>.\<close>

definition map_erase_at :: "nat \<Rightarrow> ('k \<times> 'v) list \<Rightarrow> ('k \<times> 'v) list" where
  "map_erase_at n m = take n m @ drop (Suc n) m"

text \<open>\<open>m.erase(k)\<close>.\<close>

definition map_erase :: "'k \<Rightarrow> ('k \<times> 'v) list \<Rightarrow> ('k \<times> 'v) list" where
  "map_erase k m = filter (\<lambda>e. fst e \<noteq> k) m"

text \<open>A write through a pointer or reference to the value stored under \<open>k\<close>.\<close>

definition map_modify :: "'k \<Rightarrow> ('v \<Rightarrow> 'v) \<Rightarrow> ('k \<times> 'v) list \<Rightarrow> ('k \<times> 'v) list" where
  "map_modify k f m = map (\<lambda>e. if fst e = k then (fst e, f (snd e)) else e) m"

section \<open>fa_cache_sim_t\<close>

text \<open>
  The fully-associative cache adds its own \<open>std::map<uint64_t, uint64_t> tags\<close>, which
  hides the array of the base class; it is the field \<open>fa_tags\<close>.
  \<open>fa_cache_sim_t(ways, linesz, name)\<close> runs \<open>cache_sim_t(1, ways, linesz, name)\<close>.
\<close>

record fa_cache_sim_t = cache_sim_t +
  fa_tags :: "(64 word \<times> 64 word) list"

definition fa_cache_sim_t_new :: "nat \<Rightarrow> nat \<Rightarrow> string \<Rightarrow> error + fa_cache_sim_t" where
  "fa_cache_sim_t_new w l nm =
     (case cache_sim_t_new 1 w l nm of
        Inl e \<Rightarrow> Inl e
      | Inr b \<Rightarrow> Inr (cache_sim_t.extend b \<lparr>fa_tags = []\<rparr>))"

text \<open>\<open>fa_cache_sim_t::check_tag\<close>: the pointer \<open>&it->second\<close> is the key of the entry.\<close>

definition fa_check_tag :: "fa_cache_sim_t \<Rightarrow> 64 word \<Rightarrow> 64 word option" where
  "fa_check_tag c addr =
     (case map_of (fa_tags c) (drop_bit (idx_shift c) addr) of
        None \<Rightarrow> None
      | Some v \<Rightarrow> Some (drop_bit (idx_shift c) addr))"

definition fa_victimize :: "fa_cache_sim_t \<Rightarrow> 64 word \<Rightarrow> error + (64 word \<times> fa_cache_sim_t)" where
  "fa_victimize c addr =
     (let k = drop_bit (idx_shift c) addr in
      if length (fa_tags c) = ways c then
        (let r = lfsr_next (lfsr c) in
         if ways c = 0 then Inl DivByZero
         else let n = unat r mod ways c;
                  old_tag = snd (fa_tags c ! n);
                  m = map_erase_at n (fa_tags c)
              in Inr (old_tag, c\<lparr>lfsr := r, fa_tags := map_set k (k OR VALID) m\<rparr>))
      else Inr (0, c\<lparr>fa_tags := map_set k (k OR VALID) (fa_tags c)\<rparr>))"

definition fa_or_dirty :: "64 word \<Rightarrow> fa_cache_sim_t \<Rightarrow> fa_cache_sim_t" where
  "fa_or_dirty k c = c\<lparr>fa_tags := map_modify k (\<lambda>v. v OR DIRTY) (fa_tags c)\<rparr>"

definition fa_access ::
    "fa_cache_sim_t \<Rightarrow> 64 word \<Rightarrow> 64 word \<Rightarrow> bool \<Rightarrow> error + (fa_cache_sim_t \<times> call list)" where
  "fa_access = access_with (\<lambda>c a. Inr (fa_check_tag c a, c)) fa_victimize fa_or_dirty"

section \<open>linear_evict_cache_sim_t\<close>

text \<open>
  \<open>std::map<size_t, size_t> evict_candidate\<close> is only read and written with
  \<open>operator[]\<close>, which gives a missing key the value 0. The constructor's line on
  \<open>std::cout\<close> is not part of the state.
\<close>

record linear_evict_cache_sim_t = cache_sim_t +
  evict_candidate :: "nat \<rightharpoonup> nat"

definition linear_evict_cache_sim_t_new ::
    "nat \<Rightarrow> nat \<Rightarrow> nat \<Rightarrow> string \<Rightarrow> error + linear_evict_cache_sim_t" where
  "linear_evict_cache_sim_t_new s w l nm =
     (case cache_sim_t_new s w l nm of
        Inl e \<Rightarrow> Inl e
      | Inr b \<Rightarrow> Inr (cache_sim_t.extend b \<lparr>evict_candidate = Map.empty\<rparr>))"

definition linear_victimize ::
    "linear_evict_cache_sim_t \<Rightarrow> 64 word \<Rightarrow> error + (64 word \<times> linear_evict_cache_sim_t)" where
  "linear_victimize c addr =
     (let idx = set_index c addr;
          way = (case evict_candidate c idx of None \<Rightarrow> 0 | Some w \<Rightarrow> w)
      in if ways c = 0 then Inl DivByZero
         else let victim = tags c ! (idx * ways c + way)
              in Inr (victim, c\<lparr>evict_candidate := (evict_candidate c)(idx \<mapsto> (way + 1) mod ways c),
                                 tags := (tags c)[idx * ways c + way := line_tag c addr]\<rparr>))"

definition linear_access ::
    "linear_evict_cache_sim_t \<Rightarrow> 64 word \<Rightarrow> 64 word \<Rightarrow> bool \<Rightarrow>
     error + (linear_evict_cache_sim_t \<times> call list)" where
  "linear_access = access_with (\<lambda>c a. Inr (check_tag c a, c)) linear_victimize or_dirty"

section \<open>hawkeye_cache_sim_t\<close>

subsection \<open>What \<open>optgen.h\<close> and \<open>hawkeye_predictor.h\<close> declare\<close>

text \<open>
  Modelled from the spec: \<open>ADDR_INFO\<close>, the sampler entry, which \<open>optgen.h\<close> declares.
  The spec lists its fields as \<open>last_quanta\<close>, \<open>PC\<close>, \<open>prediction\<close> and \<open>lru\<close>;
  \<open>last_quanta\<close> and \<open>lru\<close> are taken to be \<open>unsigned int\<close>, the type of the locals and
  parameters the source compares them with.
\<close>

record ADDR_INFO =
  last_quanta :: "32 word"
  PC :: "64 word"
  prediction :: bool
  lru :: "32 word"

text \<open>
  The two headers are not among the sources. Their macros \<open>TIMER_SIZE\<close> and
  \<open>OPTGEN_VECTOR_SIZE\<close> (positive compile-time constants), the member functions of
  \<open>OPTgen\<close> (state \<open>'o\<close>), of \<open>HAWKEYE_PC_PREDICTOR\<close> (state \<open>'p\<close>) and of \<open>ADDR_INFO\<close>
  are parameters of the model: every function below takes them as \<open>E\<close>.
  \<open>OPTgen_init n\<close> is an \<open>OPTgen\<close> after \<open>init(n)\<close>, \<open>ADDR_INFO_init q\<close> a fresh
  map entry after \<open>init(q)\<close>; \<open>should_cache\<close> returns its answer and the \<open>OPTgen\<close> it
  leaves behind.
\<close>

record ('o, 'p) hawkeye_deps =
  TIMER_SIZE :: nat
  OPTGEN_VECTOR_SIZE :: nat
  OPTgen_init :: "64 word \<Rightarrow> 'o"
  add_access :: "'o \<Rightarrow> nat \<Rightarrow> 'o"
  should_cache :: "'o \<Rightarrow> nat \<Rightarrow> nat \<Rightarrow> bool \<times> 'o"
  predictor_new :: 'p
  increment :: "'p \<Rightarrow> 64 word \<Rightarrow> 'p"
  decrement :: "'p \<Rightarrow> 64 word \<Rightarrow> 'p"
  get_prediction :: "'p \<Rightarrow> 64 word \<Rightarrow> bool"
  ADDR_INFO_init :: "nat \<Rightarrow> ADDR_INFO"
  ADDR_INFO_update :: "ADDR_INFO \<Rightarrow> nat \<Rightarrow> 64 word \<Rightarrow> bool \<Rightarrow> ADDR_INFO"

subsection \<open>The class\<close>

text \<open>
  \<open>rrpv\<close> and \<open>signatures\<close> are arrays of \<open>sets\<close> rows of \<open>ways\<close> entries;
  \<open>perset_timer\<close> holds \<open>uint64_t\<close> values, kept as naturals with the one sum that
  could wrap reduced modulo \<open>2 ^ 64\<close>; \<open>addr_history\<close> is a vector of \<open>sets\<close>
  \<open>std::map<uint64_t, ADDR_INFO>\<close>.
\<close>

record ('o, 'p) hawkeye_cache_sim_t = cache_sim_t +
  rrpv :: "nat list list"
  signatures :: "64 word list list"
  perset_optgen :: "'o list"
  perset_timer :: "nat list"
  demand_predictor :: 'p
  addr_history :: "(64 word \<times> ADDR_INFO) list list"

definition MAX_RRPV :: nat where
  "MAX_RRPV = 7"

text \<open>
  The constructor: the base constructor, then every row filled with \<open>MAX_RRPV\<close> and
  signature 0, every timer 0, every sampler empty and every \<open>OPTgen\<close> after
  \<open>init(ways-2)\<close>, the difference taken in \<open>size_t\<close>.
\<close>

definition hawkeye_cache_sim_t_new ::
    "('o, 'p) hawkeye_deps \<Rightarrow> nat \<Rightarrow> nat \<Rightarrow> nat \<Rightarrow> string \<Rightarrow>
     error + ('o, 'p) hawkeye_cache_sim_t" where
  "hawkeye_cache_sim_t_new E s w l nm =
     (case cache_sim_t_new s w l nm of
        Inl e \<Rightarrow> Inl e
      | Inr b \<Rightarrow> Inr (cache_sim_t.extend b
          \<lparr>rrpv = replicate s (replicate w MAX_RRPV),
           signatures = replicate s (replicate w 0),
           perset_optgen = replicate s (OPTgen_init E (of_nat w - 2)),
           perset_timer = replicate s 0,
           demand_predictor = predictor_new E,
           addr_history = replicate s []\<rparr>))"

text \<open>
  The second loop of \<open>victimize\<close>: the last way whose RRPV is at least the running
  maximum; \<open>lru_victim\<close> starts at \<open>-1\<close>.
\<close>

definition lru_victim_loop :: "nat list \<Rightarrow> nat \<Rightarrow> int" where
  "lru_victim_loop row w =
     snd (fold (\<lambda>i (max_rrip, lru_victim).
                  if max_rrip \<le> row ! i then (row ! i, int i) else (max_rrip, lru_victim))
            [0..<w] (0, - 1))"

text \<open>The RRPV row after the eviction of \<open>way\<close> on the second path of \<open>victimize\<close>.\<close>

definition rrpv_after_evict :: "bool \<Rightarrow> nat list \<Rightarrow> nat \<Rightarrow> nat \<Rightarrow> nat list" where
  "rrpv_after_evict new_prediction row w way =
     (if \<not> new_prediction then row[way := MAX_RRPV]
      else let r0 = row[way := 0];
               saturated = fold (\<lambda>i s. if r0 ! i = MAX_RRPV - 1 then True else s) [0..<w] False;
               r1 = fold (\<lambda>i r. if \<not> saturated \<and> r ! i < MAX_RRPV - 1 then r[i := r ! i + 1] else r)
                      [0..<w] r0
           in r1[way := 0])"

text \<open>
  \<open>hawkeye_cache_sim_t::victimize\<close>, with the program counter \<open>pc\<close> that
  \<open>proc->get_state()->pc\<close> returns. With no way at all \<open>lru_victim\<close> stays \<open>-1\<close> and
  the tag array is read before its first element.
\<close>

definition hawkeye_victimize ::
    "('o, 'p) hawkeye_deps \<Rightarrow> 64 word \<Rightarrow> ('o, 'p) hawkeye_cache_sim_t \<Rightarrow> 64 word \<Rightarrow>
     error + (64 word \<times> ('o, 'p) hawkeye_cache_sim_t)" where
  "hawkeye_victimize E pc c addr =
     (let set = set_index c addr in
      case find (\<lambda>i. rrpv c ! set ! i = MAX_RRPV) [0..<ways c] of
        Some i \<Rightarrow>
          Inr (tags c ! (set * ways c + i),
               c\<lparr>tags := (tags c)[set * ways c + i := line_tag c addr]\<rparr>)
      | None \<Rightarrow>
          (let lru_victim = lru_victim_loop (rrpv c ! set) (ways c) in
           if lru_victim < 0 then Inl OutOfBounds
           else
             let way = nat lru_victim;
                 victim = tags c ! (set * ways c + way);
                 new_prediction = get_prediction E (demand_predictor c) pc;
                 sigs = (signatures c)[set := (signatures c ! set)[way := pc]];
                 rr = (rrpv c)[set := rrpv_after_evict new_prediction (rrpv c ! set) (ways c) way]
             in Inr (victim,
                     c\<lparr>tags := (tags c)[set * ways c + way := line_tag c addr],
                       signatures := sigs,
                       rrpv := rr,
                       demand_predictor := decrement E (demand_predictor c) (sigs ! set ! way)\<rparr>)))"

text \<open>
  \<open>replace_addr_history_element\<close> and \<open>update_addr_history_lru\<close>, on the sampler of
  one set. The first erases the key of the first entry, in key order, whose \<open>lru\<close>
  equals \<open>ways-1\<close> (compared in \<open>size_t\<close>), or the key 0 when there is none.
\<close>

definition replace_addr_history_element ::
    "nat \<Rightarrow> (64 word \<times> ADDR_INFO) list \<Rightarrow> (64 word \<times> ADDR_INFO) list" where
  "replace_addr_history_element w hist =
     (let lru_addr = (case find (\<lambda>e. unat (lru (snd e)) = (w + 2 ^ 64 - 1) mod 2 ^ 64) hist of
                        None \<Rightarrow> 0
                      | Some e \<Rightarrow> fst e)
      in map_erase lru_addr hist)"

definition update_addr_history_lru ::
    "(64 word \<times> ADDR_INFO) list \<Rightarrow> 32 word \<Rightarrow> (64 word \<times> ADDR_INFO) list" where
  "update_addr_history_lru hist curr_lru =
     map (\<lambda>e. if lru (snd e) < curr_lru then (fst e, (snd e)\<lparr>lru := lru (snd e) + 1\<rparr>) else e) hist"

text \<open>
  The sampler part of \<open>hawkeye_cache_sim_t::check_tag\<close> (down to the call of
  \<open>get_prediction\<close>): the predictor, the \<open>OPTgen\<close> and the sampler of the set it leaves.
  \<open>curr_timer\<close> is an \<open>unsigned int\<close>.
\<close>

definition sampler_step ::
    "('o, 'p) hawkeye_deps \<Rightarrow> ('o, 'p) hawkeye_cache_sim_t \<Rightarrow> 64 word \<Rightarrow>
     'p \<times> 'o \<times> (64 word \<times> ADDR_INFO) list" where
  "sampler_step E c addr =
     (let set = set_index c addr;
          timer = perset_timer c ! set;
          curr_quanta = timer mod OPTGEN_VECTOR_SIZE E;
          sampler_tag = line_tag c addr;
          hist = addr_history c ! set;
          og = perset_optgen c ! set
      in case map_of hist sampler_tag of
           Some info \<Rightarrow>
             (let curr_timer0 = (of_nat timer :: 32 word);
                  curr_timer = (if curr_timer0 < last_quanta info
                                then curr_timer0 + of_nat (TIMER_SIZE E) else curr_timer0);
                  wrap = (of_nat (OPTGEN_VECTOR_SIZE E) < curr_timer - last_quanta info);
                  last_q = unat (last_quanta info) mod OPTGEN_VECTOR_SIZE E;
                  sc = (if wrap then (False, og) else should_cache E og curr_quanta last_q);
                  pred = (if fst sc then increment E (demand_predictor c) (PC info)
                          else decrement E (demand_predictor c) (PC info))
              in (pred, add_access E (snd sc) curr_quanta, update_addr_history_lru hist (lru info)))
         | None \<Rightarrow>
             (let h1 = (if length hist = ways c
                        then replace_addr_history_element (ways c) hist else hist);
                  h2 = map_set sampler_tag (ADDR_INFO_init E curr_quanta) h1
              in (demand_predictor c, add_access E og curr_quanta,
                  update_addr_history_lru h2 (of_nat (ways c) - 1))))"

text \<open>The scan of \<open>check_tag\<close> that keeps the last matching way; \<open>way\<close> starts at \<open>-1\<close>.\<close>

definition last_way_loop :: "('o, 'p) hawkeye_cache_sim_t \<Rightarrow> 64 word \<Rightarrow> int" where
  "last_way_loop c addr =
     fold (\<lambda>i way. if line_tag c addr = (tags c ! (set_index c addr * ways c + i)) AND NOT DIRTY
                    then int i else way)
       [0..<ways c] (- 1)"

text \<open>
  \<open>hawkeye_cache_sim_t::check_tag\<close>. After the sampler part the entry of
  \<open>sampler_tag\<close> exists on both branches, so \<open>update\<close> and \<open>lru = 0\<close> write through a
  reference to it. The result is that of \<open>cache_sim_t::check_tag\<close>.
\<close>

definition hawkeye_check_tag ::
    "('o, 'p) hawkeye_deps \<Rightarrow> 64 word \<Rightarrow> ('o, 'p) hawkeye_cache_sim_t \<Rightarrow> 64 word \<Rightarrow>
     error + (nat option \<times> ('o, 'p) hawkeye_cache_sim_t)" where
  "hawkeye_check_tag E pc c addr =
     (let set = set_index c addr;
          timer = perset_timer c ! set;
          sampler_tag = line_tag c addr;
          (pred, og, hist) = sampler_step E c addr;
          new_prediction = get_prediction E pred pc;
          hist' = map_modify sampler_tag
                    (\<lambda>info. (ADDR_INFO_update E info timer pc new_prediction)\<lparr>lru := 0\<rparr>) hist;
          timer' = ((timer + 1) mod 2 ^ 64) mod TIMER_SIZE E;
          way = last_way_loop c addr;
          sigs = (if way \<noteq> - 1
                  then (signatures c)[set := (signatures c ! set)[nat way := pc]]
                  else signatures c);
          rr = (if way \<noteq> - 1
                then (rrpv c)[set := (rrpv c ! set)[nat way := (if \<not> new_prediction then MAX_RRPV else 0)]]
                else rrpv c)
      in Inr (check_tag c addr,
              c\<lparr>demand_predictor := pred,
                perset_optgen := (perset_optgen c)[set := og],
                addr_history := (addr_history c)[set := hist'],
                perset_timer := (perset_timer c)[set := timer'],
                signatures := sigs,
                rrpv := rr\<rparr>))"

definition hawkeye_access ::
    "('o, 'p) hawkeye_deps \<Rightarrow> 64 word \<Rightarrow> ('o, 'p) hawkeye_cache_sim_t \<Rightarrow>
     64 word \<Rightarrow> 64 word \<Rightarrow> bool \<Rightarrow> error + (('o, 'p) hawkeye_cache_sim_t \<times> call list)" where
  "hawkeye_access E pc = access_with (hawkeye_check_tag E pc) (hawkeye_victimize E pc) or_dirty"

section \<open>The four classes behind one pointer\<close>

text \<open>
  \<open>construct\<close> returns a \<open>cache_sim_t*\<close> whose dynamic type is one of four classes; a call
  of \<open>access\<close> through it dispatches on that type. An event is the program counter of
  the instruction and the arguments \<open>(addr, bytes, store)\<close>.
\<close>

datatype ('o, 'p) cache =
    Default_cache cache_sim_t
  | FA_cache fa_cache_sim_t
  | Linear_cache linear_evict_cache_sim_t
  | Hawkeye_cache "('o, 'p) hawkeye_cache_sim_t"

datatype policy = RandomEvict | FullyAssociative | LinearEvict | HawkeyePolicy

fun policy_of :: "('o, 'p) cache \<Rightarrow> policy" where
  "policy_of (Default_cache c) = RandomEvict"
| "policy_of (FA_cache c) = FullyAssociative"
| "policy_of (Linear_cache c) = LinearEvict"
| "policy_of (Hawkeye_cache c) = HawkeyePolicy"

fun base_of :: "('o, 'p) cache \<Rightarrow> cache_sim_t" where
  "base_of (Default_cache c) = cache_sim_t.truncate c"
| "base_of (FA_cache c) = cache_sim_t.truncate c"
| "base_of (Linear_cache c) = cache_sim_t.truncate c"
| "base_of (Hawkeye_cache c) = cache_sim_t.truncate c"

type_synonym event = "64 word \<times> 64 word \<times> 64 word \<times> bool"

fun access_any ::
    "('o, 'p) hawkeye_deps \<Rightarrow> ('o, 'p) cache \<Rightarrow> event \<Rightarrow> error + (('o, 'p) cache \<times> call list)" where
  "access_any E (Default_cache c) (pc, addr, bytes, store) =
     map_sum id (map_prod Default_cache id) (access c addr bytes store)"
| "access_any E (FA_cache c) (pc, addr, bytes, store) =
     map_sum id (map_prod FA_cache id) (fa_access c addr bytes store)"
| "access_any E (Linear_cache c) (pc, addr, bytes, store) =
     map_sum id (map_prod Linear_cache id) (linear_access c addr bytes store)"
| "access_any E (Hawkeye_cache c) (pc, addr, bytes, store) =
     map_sum id (map_prod Hawkeye_cache id) (hawkeye_access E pc c addr bytes store)"

text \<open>A stream of events, one \<open>access\<close> after the other; the first failure ends it.\<close>

fun accesses ::
    "('o, 'p) hawkeye_deps \<Rightarrow> ('o, 'p) cache \<Rightarrow> event list \<Rightarrow> error + ('o, 'p) cache" where
  "accesses E c [] = Inr c"
| "accesses E c (ev # evs) =
     (case access_any E c ev of
        Inl e \<Rightarrow> Inl e
      | Inr (c', calls) \<Rightarrow> accesses E c' evs)"

section \<open>construct\<close>

text \<open>
  \<open>strchr\<close> returns the suffix that starts at the first occurrence. \<open>atoi\<close> skips white
  space, reads an optional sign and the decimal digits that follow; a value outside
  \<open>int\<close> is undefined behaviour. The conversion of its \<open>int\<close> to \<open>size_t\<close> is modulo
  \<open>2 ^ 64\<close>.
\<close>

fun strchr :: "string \<Rightarrow> char \<Rightarrow> string option" where
  "strchr [] ch = None"
| "strchr (x # xs) ch = (if x = ch then Some (x # xs) else strchr xs ch)"

definition isspace :: "char \<Rightarrow> bool" where
  "isspace ch = ((of_char ch :: nat) = 32 \<or> (9 \<le> (of_char ch :: nat) \<and> (of_char ch :: nat) \<le> 13))"

definition isdigit :: "char \<Rightarrow> bool" where
  "isdigit ch = (48 \<le> (of_char ch :: nat) \<and> (of_char ch :: nat) \<le> 57)"

fun atoi_digits :: "int \<Rightarrow> string \<Rightarrow> int" where
  "atoi_digits acc [] = acc"
| "atoi_digits acc (ch # s) =
     (if isdigit ch then atoi_digits (acc * 10 + (of_char ch - 48)) s else acc)"

definition atoi :: "string \<Rightarrow> error + int" where
  "atoi s =
     (let s1 = dropWhile isspace s;
          v = (case s1 of
                 [] \<Rightarrow> 0
               | ch # r \<Rightarrow> if ch = CHR ''-'' then - atoi_digits 0 r
                           else if ch = CHR ''+'' then atoi_digits 0 r
                           else atoi_digits 0 s1)
      in if - (2 ^ 31) \<le> v \<and> v < 2 ^ 31 then Inr v else Inl IntRange)"

definition size_t_of_int :: "int \<Rightarrow> nat" where
  "size_t_of_int i = nat (i mod 2 ^ 64)"

text \<open>
  The parsing half of \<open>construct\<close>: \<open>wp\<close>, \<open>bp\<close> and \<open>type\<close> are the suffixes after the
  first, second and third colon; \<open>std::string(p, q)\<close> is the text from \<open>p\<close> up to \<open>q\<close>.
  The result is \<open>(sets, ways, linesz, type)\<close>.
\<close>

definition config_fields :: "string \<Rightarrow> error + (nat \<times> nat \<times> nat \<times> string option)" where
  "config_fields config =
     (case strchr config CHR '':'' of
        None \<Rightarrow> Inl Usage
      | Some wp0 \<Rightarrow>
         (let wp = tl wp0 in
          case strchr wp CHR '':'' of
            None \<Rightarrow> Inl Usage
          | Some bp0 \<Rightarrow>
             (let bp = tl bp0;
                  type = map_option tl (strchr bp CHR '':'')
              in case atoi (take (length config - length wp) config) of
                   Inl e \<Rightarrow> Inl e
                 | Inr s \<Rightarrow>
                    (case atoi (take (length wp - length bp) wp) of
                       Inl e \<Rightarrow> Inl e
                     | Inr w \<Rightarrow>
                        (case atoi (case type of
                                      Some ty \<Rightarrow> take (length bp - length ty) bp
                                    | None \<Rightarrow> bp) of
                           Inl e \<Rightarrow> Inl e
                         | Inr l \<Rightarrow>
                            Inr (size_t_of_int s, size_t_of_int w, size_t_of_int l, type))))))"

definition construct ::
    "('o, 'p) hawkeye_deps \<Rightarrow> string \<Rightarrow> string \<Rightarrow> error + ('o, 'p) cache" where
  "construct E config nm =
     (case config_fields config of
        Inl e \<Rightarrow> Inl e
      | Inr (s, w, l, type) \<Rightarrow>
          if type = Some ''linear''
          then map_sum id Linear_cache (linear_evict_cache_sim_t_new s w l nm)
          else if type = Some ''hawkeye''
          then map_sum id Hawkeye_cache (hawkeye_cache_sim_t_new E s w l nm)
          else if 4 < w \<and> s = 1
          then map_sum id FA_cache (fa_cache_sim_t_new w l nm)
          else map_sum id Default_cache (cache_sim_t_new s w l nm))"

section \<open>The collaborators of Hawkeye, from the specification\<close>

text \<open>
  Modelled from the spec: \<open>HAWKEYE_PC_PREDICTOR\<close>, of \<open>hawkeye_predictor.h\<close>. A table of
  3-bit saturating counters indexed by a hash of the PC: \<open>increment\<close> saturates toward
  7, \<open>decrement\<close> toward 0, \<open>get_prediction\<close> is true iff the counter is at least the
  mid-point 4. The hash and the value the counters start with are not given: they are
  the arguments \<open>hash\<close> and \<open>c0\<close>.
\<close>

definition spec_increment :: "(64 word \<Rightarrow> nat) \<Rightarrow> (nat \<Rightarrow> nat) \<Rightarrow> 64 word \<Rightarrow> (nat \<Rightarrow> nat)" where
  "spec_increment hash tbl pc = tbl(hash pc := min 7 (tbl (hash pc) + 1))"

definition spec_decrement :: "(64 word \<Rightarrow> nat) \<Rightarrow> (nat \<Rightarrow> nat) \<Rightarrow> 64 word \<Rightarrow> (nat \<Rightarrow> nat)" where
  "spec_decrement hash tbl pc = tbl(hash pc := tbl (hash pc) - 1)"

definition spec_get_prediction :: "(64 word \<Rightarrow> nat) \<Rightarrow> (nat \<Rightarrow> nat) \<Rightarrow> 64 word \<Rightarrow> bool" where
  "spec_get_prediction hash tbl pc = (4 \<le> tbl (hash pc))"

text \<open>
  Modelled from the spec: \<open>OPTgen\<close>, of \<open>optgen.h\<close>. A ring of \<open>OPTGEN_VECTOR_SIZE\<close>
  occupancy counters and a capacity. \<open>add_access\<close> records that a reference occurred at
  the quantum. \<open>should_cache curr last\<close> is true iff every quantum of the interval
  \<open>(last, curr]\<close>, taken around the ring, has an occupancy below the capacity, and then
  increments the occupancy of each.
\<close>

record spec_OPTgen =
  occupancy :: "nat list"
  capacity :: "64 word"
  references :: "nat list"

definition spec_OPTgen_init :: "nat \<Rightarrow> 64 word \<Rightarrow> spec_OPTgen" where
  "spec_OPTgen_init V n = \<lparr>occupancy = replicate V 0, capacity = n, references = []\<rparr>"

definition spec_add_access :: "spec_OPTgen \<Rightarrow> nat \<Rightarrow> spec_OPTgen" where
  "spec_add_access og q = og\<lparr>references := references og @ [q]\<rparr>"

definition ring_interval :: "nat \<Rightarrow> nat \<Rightarrow> nat \<Rightarrow> nat list" where
  "ring_interval V lastq currq = map (\<lambda>j. (lastq + 1 + j) mod V) [0..<(currq + V - lastq) mod V]"

definition spec_should_cache :: "nat \<Rightarrow> spec_OPTgen \<Rightarrow> nat \<Rightarrow> nat \<Rightarrow> bool \<times> spec_OPTgen" where
  "spec_should_cache V og currq lastq =
     (let qs = ring_interval V lastq currq in
      if list_all (\<lambda>q. occupancy og ! q < unat (capacity og)) qs
      then (True, og\<lparr>occupancy := fold (\<lambda>q occ. occ[q := occ ! q + 1]) qs (occupancy og)\<rparr>)
      else (False, og))"

text \<open>
  Modelled from the spec: the member functions of \<open>ADDR_INFO\<close>. A fresh entry has
  \<open>lru = ways - 1\<close>; \<open>update\<close> stores the timer, the PC and the prediction.
\<close>

definition spec_ADDR_INFO_init :: "nat \<Rightarrow> nat \<Rightarrow> ADDR_INFO" where
  "spec_ADDR_INFO_init w q = \<lparr>last_quanta = of_nat q, PC = 0, prediction = False, lru = of_nat w - 1\<rparr>"

definition spec_ADDR_INFO_update :: "ADDR_INFO \<Rightarrow> nat \<Rightarrow> 64 word \<Rightarrow> bool \<Rightarrow> ADDR_INFO" where
  "spec_ADDR_INFO_update info timer pc p = info\<lparr>last_quanta := of_nat timer, PC := pc, prediction := p\<rparr>"

text \<open>The collaborators together, for a cache of \<open>w\<close> ways.\<close>

definition spec_deps ::
    "nat \<Rightarrow> nat \<Rightarrow> (64 word \<Rightarrow> nat) \<Rightarrow> nat \<Rightarrow> nat \<Rightarrow> (spec_OPTgen, nat \<Rightarrow> nat) hawkeye_deps" where
  "spec_deps T V hash c0 w =
     \<lparr>TIMER_SIZE = T, OPTGEN_VECTOR_SIZE = V,
      OPTgen_init = spec_OPTgen_init V,
      add_access = spec_add_access,
      should_cache = spec_should_cache V,
      predictor_new = (\<lambda>i. c0),
      increment = spec_increment hash,
      decrement = spec_decrement hash,
      get_prediction = spec_get_prediction hash,
      ADDR_INFO_init = spec_ADDR_INFO_init w,
      ADDR_INFO_update = spec_ADDR_INFO_update\<rparr>"

text \<open>
  Any collaborators, observed: the predictor also keeps the list of its training
  calls and each \<open>OPTgen\<close> the list of the quanta passed to \<open>add_access\<close>, in call order.
  The answers of \<open>get_prediction\<close> and \<open>should_cache\<close> are those of \<open>E\<close>.
\<close>

datatype training = Increment "64 word" | Decrement "64 word"

definition traced ::
    "('o, 'p) hawkeye_deps \<Rightarrow> ('o \<times> nat list, 'p \<times> training list) hawkeye_deps" where
  "traced E =
     \<lparr>TIMER_SIZE = TIMER_SIZE E, OPTGEN_VECTOR_SIZE = OPTGEN_VECTOR_SIZE E,
      OPTgen_init = (\<lambda>n. (OPTgen_init E n, [])),
      add_access = (\<lambda>og q. (add_access E (fst og) q, snd og @ [q])),
      should_cache = (\<lambda>og currq lastq. (fst (should_cache E (fst og) currq lastq),
                                        (snd (should_cache E (fst og) currq lastq), snd og))),
      predictor_new = (predictor_new E, []),
      increment = (\<lambda>p pc. (increment E (fst p) pc, snd p @ [Increment pc])),
      decrement = (\<lambda>p pc. (decrement E (fst p) pc, snd p @ [Decrement pc])),
      get_prediction = (\<lambda>p pc. get_prediction E (fst p) pc),
      ADDR_INFO_init = ADDR_INFO_init E,
      ADDR_INFO_update = ADDR_INFO_update E\<rparr>"

section \<open>Properties of a cache\<close>

text \<open>
  What every constructor leaves and every access keeps: \<open>sets\<close> and \<open>linesz\<close> pass the
  two validations of \<open>init\<close>, \<open>idx_shift\<close> is the shift \<open>init\<close> computed, and the tag array
  has \<open>sets * ways\<close> words, few enough to have been allocated. In such a cache no index
  computed in \<open>size_t\<close> wraps.
\<close>

definition wf_cache :: "'a cache_sim_t_scheme \<Rightarrow> bool" where
  "wf_cache c \<longleftrightarrow>
     sets c \<noteq> 0 \<and> sets c AND (sets c - 1) = 0 \<and> sets c < 2 ^ 64 \<and>
     8 \<le> linesz c \<and> linesz c AND (linesz c - 1) = 0 \<and> linesz c < 2 ^ 64 \<and>
     idx_shift c = idx_shift_loop (linesz c) 0 \<and>
     sets c * ways c < 2 ^ 61 \<and> length (tags c) = sets c * ways c"

text \<open>
  The fully-associative map is in ascending key order, holds at most \<open>ways\<close> entries,
  and the entry of a key \<open>k\<close> is the tag word \<open>k | VALID\<close>, possibly DIRTY.
\<close>

definition fa_entry_ok :: "64 word \<times> 64 word \<Rightarrow> bool" where
  "fa_entry_ok e \<longleftrightarrow> snd e AND NOT DIRTY = fst e OR VALID \<and> fst e AND (VALID OR DIRTY) = 0"

definition fa_wf :: "fa_cache_sim_t \<Rightarrow> bool" where
  "fa_wf c \<longleftrightarrow>
     wf_cache c \<and> sorted (map fst (fa_tags c)) \<and> distinct (map fst (fa_tags c)) \<and>
     length (fa_tags c) \<le> ways c \<and> list_all fa_entry_ok (fa_tags c)"

text \<open>The cursor of every set is a way of the set.\<close>

definition cursors_ok :: "linear_evict_cache_sim_t \<Rightarrow> bool" where
  "cursors_ok c \<longleftrightarrow> (\<forall>idx w. evict_candidate c idx = Some w \<longrightarrow> w < ways c)"

definition linear_wf :: "linear_evict_cache_sim_t \<Rightarrow> bool" where
  "linear_wf c \<longleftrightarrow> wf_cache c \<and> cursors_ok c"

text \<open>
  The arrays of Hawkeye have \<open>sets\<close> rows of \<open>ways\<close> entries, and \<open>ways\<close> fits the
  \<open>int\<close> and \<open>int32_t\<close> variables that receive a way.
\<close>

definition hawkeye_arrays_ok :: "('o, 'p) hawkeye_cache_sim_t \<Rightarrow> bool" where
  "hawkeye_arrays_ok c \<longleftrightarrow>
     ways c < 2 ^ 31 \<and>
     length (rrpv c) = sets c \<and> list_all (\<lambda>row. length row = ways c) (rrpv c) \<and>
     length (signatures c) = sets c \<and> list_all (\<lambda>row. length row = ways c) (signatures c) \<and>
     length (perset_optgen c) = sets c \<and> length (perset_timer c) = sets c \<and>
     length (addr_history c) = sets c"

definition hawkeye_wf :: "('o, 'p) hawkeye_cache_sim_t \<Rightarrow> bool" where
  "hawkeye_wf c \<longleftrightarrow> wf_cache c \<and> hawkeye_arrays_ok c"

fun wf_any :: "('o, 'p) cache \<Rightarrow> bool" where
  "wf_any (Default_cache c) = wf_cache c"
| "wf_any (FA_cache c) = fa_wf c"
| "wf_any (Linear_cache c) = linear_wf c"
| "wf_any (Hawkeye_cache c) = hawkeye_wf c"

text \<open>
  A tag word: bit 63 is VALID, bit 62 DIRTY, the rest the tag payload. No two slots of
  a list of tag words that both are VALID hold the same payload.
\<close>

definition tag_valid :: "64 word \<Rightarrow> bool" where
  "tag_valid w = (w AND VALID = VALID)"

definition tag_payload :: "64 word \<Rightarrow> 64 word" where
  "tag_payload w = w AND NOT (VALID OR DIRTY)"

definition no_dup_slots :: "64 word list \<Rightarrow> bool" where
  "no_dup_slots ws =
     list_all (\<lambda>i. list_all (\<lambda>j. \<not> (i \<noteq> j \<and> tag_valid (ws ! i) \<and> tag_valid (ws ! j) \<and>
                                      tag_payload (ws ! i) = tag_payload (ws ! j)))
                      [0..<length ws])
       [0..<length ws]"

text \<open>The slots of set \<open>s\<close>: \<open>tags[s*ways + 0 .. s*ways + ways-1]\<close>.\<close>

definition set_slots :: "'a cache_sim_t_scheme \<Rightarrow> nat \<Rightarrow> 64 word list" where
  "set_slots c s = map (\<lambda>i. tags c ! (s * ways c + i)) [0..<ways c]"

definition no_dup_tags :: "'a cache_sim_t_scheme \<Rightarrow> bool" where
  "no_dup_tags c = list_all (\<lambda>s. no_dup_slots (set_slots c s)) [0..<sets c]"

definition fa_no_dup :: "fa_cache_sim_t \<Rightarrow> bool" where
  "fa_no_dup c \<longleftrightarrow> distinct (map fst (fa_tags c)) \<and> no_dup_slots (map snd (fa_tags c))"

fun no_dup_any :: "('o, 'p) cache \<Rightarrow> bool" where
  "no_dup_any (Default_cache c) = no_dup_tags c"
| "no_dup_any (FA_cache c) = fa_no_dup c"
| "no_dup_any (Linear_cache c) = no_dup_tags c"
| "no_dup_any (Hawkeye_cache c) = no_dup_tags c"

text \<open>Whether the lookup of \<open>addr\<close> finds the line: \<open>check_tag\<close> returns non-null.\<close>

fun is_hit :: "('o, 'p) cache \<Rightarrow> 64 word \<Rightarrow> bool" where
  "is_hit (Default_cache c) addr = (check_tag c addr \<noteq> None)"
| "is_hit (FA_cache c) addr = (fa_check_tag c addr \<noteq> None)"
| "is_hit (Linear_cache c) addr = (check_tag c addr \<noteq> None)"
| "is_hit (Hawkeye_cache c) addr = (check_tag c addr \<noteq> None)"

text \<open>
  The tag word that a miss on \<open>addr\<close> took out of the cache \<open>c\<close>, read off the states before
  and after the access. In a class that keeps its lines in the tag array it is the word
  that one way of the set of \<open>addr\<close> held in \<open>c\<close>, and afterwards this way holds the tag of
  the new line, DIRTY for a store, and no other slot has changed. In the fully-associative
  class it is the value of the map entry that was erased when the map was full, and 0 when
  the map had room; afterwards the map has the entry of the new line in place of it.
\<close>

definition array_evicted ::
    "'a cache_sim_t_scheme \<Rightarrow> 64 word \<Rightarrow> bool \<Rightarrow> 64 word \<Rightarrow> 64 word list \<Rightarrow> bool" where
  "array_evicted c addr store victim tags' \<longleftrightarrow>
     list_ex (\<lambda>way. victim = tags c ! (set_index c addr * ways c + way) \<and>
                tags' = (tags c)[set_index c addr * ways c + way :=
                          (if store then line_tag c addr OR DIRTY else line_tag c addr)])
       [0..<ways c]"

definition fa_evicted ::
    "fa_cache_sim_t \<Rightarrow> 64 word \<Rightarrow> bool \<Rightarrow> 64 word \<Rightarrow> (64 word \<times> 64 word) list \<Rightarrow> bool" where
  "fa_evicted c addr store victim fa_tags' \<longleftrightarrow>
     (let k = drop_bit (idx_shift c) addr;
          v = (if store then (k OR VALID) OR DIRTY else k OR VALID)
      in if length (fa_tags c) = ways c
         then list_ex (\<lambda>n. victim = snd (fa_tags c ! n) \<and>
                          fa_tags' = map_set k v (map_erase_at n (fa_tags c)))
                [0..<length (fa_tags c)]
         else victim = 0 \<and> fa_tags' = map_set k v (fa_tags c))"

fun evicted :: "('o, 'p) cache \<Rightarrow> 64 word \<Rightarrow> bool \<Rightarrow> 64 word \<Rightarrow> ('o, 'p) cache \<Rightarrow> bool" where
  "evicted (Default_cache c) addr store victim c' = array_evicted c addr store victim (tags (base_of c'))"
| "evicted (Linear_cache c) addr store victim c' = array_evicted c addr store victim (tags (base_of c'))"
| "evicted (Hawkeye_cache c) addr store victim c' = array_evicted c addr store victim (tags (base_of c'))"
| "evicted (FA_cache c) addr store victim (FA_cache c') = fa_evicted c addr store victim (fa_tags c')"
| "evicted (FA_cache c) addr store victim _ = False"

text \<open>
  What \<open>access\<close> relies on in the two virtual functions of a class that keeps its lines
  in the tag array, for a property \<open>I\<close> of the members the class adds: \<open>check_tag\<close>
  returns the lookup of the base class and leaves the members of the base class alone;
  \<open>victimize\<close> returns the tag word of one way of the set and installs the new tag
  there, changing no other base member but the LFSR, and returns whenever there is a
  way; and \<open>I\<close> does not depend on the counters, the tags or the LFSR.
\<close>

definition array_hooks ::
    "('a cache_sim_t_scheme \<Rightarrow> bool) \<Rightarrow>
     ('a cache_sim_t_scheme \<Rightarrow> 64 word \<Rightarrow> error + (nat option \<times> 'a cache_sim_t_scheme)) \<Rightarrow>
     ('a cache_sim_t_scheme \<Rightarrow> 64 word \<Rightarrow> error + (64 word \<times> 'a cache_sim_t_scheme)) \<Rightarrow> bool" where
  "array_hooks I chk vic \<longleftrightarrow>
     (\<forall>c a. \<exists>c'. chk c a = Inr (check_tag c a, c') \<and>
        cache_sim_t.truncate c' = cache_sim_t.truncate c \<and> (I c \<longrightarrow> I c')) \<and>
     (\<forall>c a v c'. I c \<and> wf_cache c \<and> vic c a = Inr (v, c') \<longrightarrow>
        I c' \<and> (\<exists>way < ways c. v = tags c ! (set_index c a * ways c + way) \<and>
          tags c' = (tags c)[set_index c a * ways c + way := line_tag c a] \<and>
          cache_sim_t.truncate (c'\<lparr>tags := tags c, lfsr := lfsr c\<rparr>) = cache_sim_t.truncate c)) \<and>
     (\<forall>c a. I c \<and> wf_cache c \<and> 0 < ways c \<longrightarrow> (\<exists>v c'. vic c a = Inr (v, c'))) \<and>
     (\<forall>c c'. I c \<and> cache_sim_t.more c' = cache_sim_t.more c \<and> sets c' = sets c \<and>
        ways c' = ways c \<longrightarrow> I c')"

text \<open>
  The values of \<open>size_t\<close> that \<open>construct\<close> can pass to a constructor: an \<open>int\<close>
  converted to \<open>size_t\<close>.
\<close>

definition size_t_int :: "nat \<Rightarrow> bool" where
  "size_t_int n \<longleftrightarrow> n < 2 ^ 31 \<or> (2 ^ 64 - 2 ^ 31 \<le> n \<and> n < 2 ^ 64)"

section \<open>Concrete caches\<close>

text \<open>
  Collaborators for the examples, for a cache of \<open>w\<close> ways: the table of 8K counters that
  the spec mentions, each starting at the mid-point, a timer of 1024 ticks and 128
  quanta.
\<close>

definition example_deps :: "nat \<Rightarrow> (spec_OPTgen, nat \<Rightarrow> nat) hawkeye_deps" where
  "example_deps w = spec_deps 1024 128 (\<lambda>pc. unat pc mod 8192) 4 w"


text \<open>The cache that \<open>cache_sim_t(2, 2, 64, nm)\<close> builds, and the same cache after the
  three accesses of scenario S5.\<close>

definition cache_2_2_64 :: "string \<Rightarrow> cache_sim_t" where
  "cache_2_2_64 nm =
     \<lparr>lfsr = 1, miss_handler = False, sets = 2, ways = 2, linesz = 64, idx_shift = 6,
      tags = [0, 0, 0, 0], read_accesses = 0, read_misses = 0, bytes_read = 0,
      write_accesses = 0, write_misses = 0, bytes_written = 0, writebacks = 0,
      name = nm, log = False\<rparr>"

definition cache_2_2_64_after_S5 :: "string \<Rightarrow> cache_sim_t" where
  "cache_2_2_64_after_S5 nm =
     \<lparr>lfsr = 0xd0000001, miss_handler = False, sets = 2, ways = 2, linesz = 64, idx_shift = 6,
      tags = [0, 0xC000000000000000, 0, 0], read_accesses = 2, read_misses = 1, bytes_read = 16,
      write_accesses = 1, write_misses = 0, bytes_written = 8, writebacks = 0,
      name = nm, log = False\<rparr>"

text \<open>The cache of scenario S5 after its first access, \<open>(0x000, 8, read)\<close>.\<close>

definition cache_2_2_64_after_first :: "string \<Rightarrow> cache_sim_t" where
  "cache_2_2_64_after_first nm =
     \<lparr>lfsr = 0xd0000001, miss_handler = False, sets = 2, ways = 2, linesz = 64, idx_shift = 6,
      tags = [0, 0x8000000000000000, 0, 0], read_accesses = 1, read_misses = 1, bytes_read = 8,
      write_accesses = 0, write_misses = 0, bytes_written = 0, writebacks = 0,
      name = nm, log = False\<rparr>"

text \<open>The caches that \<open>fa_cache_sim_t(8, 64, nm)\<close> and the configuration
  \<open>1:8:64:linear\<close> build.\<close>

definition cache_fa_8_64 :: "string \<Rightarrow> fa_cache_sim_t" where
  "cache_fa_8_64 nm =
     \<lparr>lfsr = 1, miss_handler = False, sets = 1, ways = 8, linesz = 64, idx_shift = 6,
      tags = [0, 0, 0, 0, 0, 0, 0, 0], read_accesses = 0, read_misses = 0, bytes_read = 0,
      write_accesses = 0, write_misses = 0, bytes_written = 0, writebacks = 0,
      name = nm, log = False, fa_tags = []\<rparr>"


text \<open>The cache that the configuration \<open>2:0:64\<close> builds: no way at all.\<close>

definition cache_2_0_64 :: "string \<Rightarrow> cache_sim_t" where
  "cache_2_0_64 nm =
     \<lparr>lfsr = 1, miss_handler = False, sets = 2, ways = 0, linesz = 64, idx_shift = 6,
      tags = [], read_accesses = 0, read_misses = 0, bytes_read = 0,
      write_accesses = 0, write_misses = 0, bytes_written = 0, writebacks = 0,
      name = nm, log = False\<rparr>"

text \<open>The cache that the configuration \<open>1:1:64:hawkeye\<close> builds over the collaborators of
  the specification with their calls recorded, the same cache after the store
  \<open>(pc 0x100, addr 0x00, 8 bytes)\<close>, and after the following load
  \<open>(pc 0x200, addr 0x40, 8 bytes)\<close>.\<close>

definition hawkeye_1_1_64 ::
    "string \<Rightarrow> (spec_OPTgen \<times> nat list, (nat \<Rightarrow> nat) \<times> training list) hawkeye_cache_sim_t" where
  "hawkeye_1_1_64 nm =
     \<lparr>lfsr = 1, miss_handler = False, sets = 1, ways = 1, linesz = 64, idx_shift = 6,
      tags = [0], read_accesses = 0, read_misses = 0, bytes_read = 0,
      write_accesses = 0, write_misses = 0, bytes_written = 0, writebacks = 0,
      name = nm, log = False,
      rrpv = [[7]], signatures = [[0]],
      perset_optgen = [(\<lparr>occupancy = replicate 128 0, capacity = - 1, references = []\<rparr>, [])],
      perset_timer = [0],
      demand_predictor = (\<lambda>i. 4, []),
      addr_history = [[]]\<rparr>"

definition hawkeye_1_1_64_after_store ::
    "string \<Rightarrow> (spec_OPTgen \<times> nat list, (nat \<Rightarrow> nat) \<times> training list) hawkeye_cache_sim_t" where
  "hawkeye_1_1_64_after_store nm =
     \<lparr>lfsr = 1, miss_handler = False, sets = 1, ways = 1, linesz = 64, idx_shift = 6,
      tags = [0xC000000000000000], read_accesses = 0, read_misses = 0, bytes_read = 0,
      write_accesses = 1, write_misses = 1, bytes_written = 8, writebacks = 0,
      name = nm, log = False,
      rrpv = [[0]], signatures = [[0x100]],
      perset_optgen = [(\<lparr>occupancy = (replicate 128 0)[1 := 1], capacity = - 1,
                         references = [0, 1]\<rparr>, [0, 1])],
      perset_timer = [2],
      demand_predictor = ((\<lambda>i. 4)(256 := 5), [Increment 0x100]),
      addr_history = [[(0x8000000000000000,
                        \<lparr>last_quanta = 1, PC = 0x100, prediction = True, lru = 0\<rparr>)]]\<rparr>"

definition hawkeye_1_1_64_after_evict ::
    "string \<Rightarrow> (spec_OPTgen \<times> nat list, (nat \<Rightarrow> nat) \<times> training list) hawkeye_cache_sim_t" where
  "hawkeye_1_1_64_after_evict nm =
     \<lparr>lfsr = 1, miss_handler = False, sets = 1, ways = 1, linesz = 64, idx_shift = 6,
      tags = [0x8000000000000001], read_accesses = 1, read_misses = 1, bytes_read = 8,
      write_accesses = 1, write_misses = 1, bytes_written = 8, writebacks = 1,
      name = nm, log = False,
      rrpv = [[0]], signatures = [[0x200]],
      perset_optgen = [(\<lparr>occupancy = (replicate 128 0)[1 := 1], capacity = - 1,
                         references = [0, 1, 2]\<rparr>, [0, 1, 2])],
      perset_timer = [3],
      demand_predictor = ((\<lambda>i. 4)(256 := 5, 512 := 3), [Increment 0x100, Decrement 0x200]),
      addr_history = [[(0x8000000000000001,
                        \<lparr>last_quanta = 2, PC = 0x200, prediction = True, lru = 0\<rparr>)]]\<rparr>"

text \<open>A \<open>1:1:64\<close> cache with a miss handler wired, after a store to line 0: its only way
  is VALID and DIRTY.\<close>

definition cache_1_1_64_dirty :: "string \<Rightarrow> cache_sim_t" where
  "cache_1_1_64_dirty nm =
     \<lparr>lfsr = 0xd0000001, miss_handler = True, sets = 1, ways = 1, linesz = 64, idx_shift = 6,
      tags = [0xC000000000000000], read_accesses = 0, read_misses = 0, bytes_read = 0,
      write_accesses = 1, write_misses = 1, bytes_written = 8, writebacks = 0,
      name = nm, log = False\<rparr>"

section \<open>Facts\<close>

subsection \<open>Powers of two and indices\<close>

lemma pow2_nat:
  fixes n :: nat
  assumes "n \<noteq> 0" "n AND (n - 1) = 0"
  shows "\<exists>k. n = 2 ^ k"
  using assms
proof (induction n rule: less_induct)
  case (less n)
  show ?case
  proof (cases "n = 1")
    case True
    then show ?thesis by (intro exI[of _ 0]) simp
  next
    case False
    with less.prems have n2: "2 \<le> n" by simp
    have rec: "n AND (n - 1) = of_bool (odd n \<and> odd (n - 1)) + 2 * ((n div 2) AND ((n - 1) div 2))"
      by (rule and_rec)
    show ?thesis
    proof (cases "even n")
      case True
      then obtain m where m: "n = 2 * m" by (auto elim: evenE)
      with n2 have m0: "m \<noteq> 0" by simp
      have "(n - 1) div 2 = m - 1" using m m0 by (cases m) simp_all
      with rec less.prems(2) m have "m AND (m - 1) = 0" by simp
      moreover have "m < n" using m m0 by simp
      ultimately obtain k where "m = 2 ^ k" using less.IH m0 by blast
      then have "n = 2 ^ Suc k" using m by simp
      then show ?thesis by blast
    next
      case False
      then obtain m where m: "n = 2 * m + 1" by (auto elim: oddE)
      with n2 have m0: "m \<noteq> 0" by simp
      have "n AND (n - 1) = 2 * m" using rec m by simp
      with less.prems(2) m0 show ?thesis by simp
    qed
  qed
qed

lemma idx_shift_loop_pow2: "idx_shift_loop (2 ^ k) s = s + k"
proof (induction k arbitrary: s)
  case 0
  show ?case by (simp add: idx_shift_loop.simps)
next
  case (Suc k)
  have "1 < (2::nat) ^ Suc k" by (rule one_less_power) simp_all
  then have "idx_shift_loop (2 ^ Suc k) s = idx_shift_loop (2 ^ Suc k div 2) (Suc s)"
    by (subst idx_shift_loop.simps) simp
  also have "\<dots> = Suc s + k" using Suc.IH [of "Suc s"] by simp
  finally show ?case by simp
qed

lemma wf_linesz:
  assumes "wf_cache c"
  shows "linesz c = 2 ^ idx_shift c" and "3 \<le> idx_shift c" and "idx_shift c < 64"
proof -
  from assms have l: "linesz c \<noteq> 0" "linesz c AND (linesz c - 1) = 0" "8 \<le> linesz c" "linesz c < 2 ^ 64"
    and s: "idx_shift c = idx_shift_loop (linesz c) 0"
    by (auto simp: wf_cache_def)
  from pow2_nat [OF l(1,2)] obtain k where k: "linesz c = 2 ^ k" by blast
  with s have sk: "idx_shift c = k" by (simp add: idx_shift_loop_pow2)
  show "linesz c = 2 ^ idx_shift c" using k sk by simp
  have "(2::nat) ^ 3 \<le> 2 ^ k" using l(3) k by simp
  then show "3 \<le> idx_shift c" using sk by (simp only: power_increasing_iff) 
  have "(2::nat) ^ k < 2 ^ 64" using l(4) k by simp
  then show "idx_shift c < 64" using sk by (simp only: power_strict_increasing_iff) 
qed

lemma set_index_less:
  assumes "wf_cache c"
  shows "set_index c addr < sets c"
proof -
  from assms have s: "sets c \<noteq> 0" "sets c < 2 ^ 64" by (auto simp: wf_cache_def)
  have "1 \<le> (of_nat (sets c) :: 64 word)"
    using s by (simp add: word_le_nat_alt unat_of_nat take_bit_nat_eq_self)  
  then have u: "unat ((of_nat (sets c) :: 64 word) - 1) = sets c - 1"
    using s by (simp add: unat_sub unat_of_nat take_bit_nat_eq_self)
  have "drop_bit (idx_shift c) addr AND (of_nat (sets c) - 1) \<le> of_nat (sets c) - 1"
    by (rule word_and_le1)
  then have "set_index c addr \<le> sets c - 1"
    by (simp add: set_index_def word_le_nat_alt u)
  with s show ?thesis by simp
qed

lemma slot_in_range:
  assumes "wf_cache c" "i < ways c"
  shows "set_index c addr * ways c + i < length (tags c)"
proof -
  have "set_index c addr < sets c" using assms(1) by (rule set_index_less)
  then have "Suc (set_index c addr) * ways c \<le> sets c * ways c"
    by (intro mult_le_mono1) simp
  moreover have "set_index c addr * ways c + i < Suc (set_index c addr) * ways c"
    using assms(2) by simp
  ultimately show ?thesis using assms(1) by (simp add: wf_cache_def)
qed

subsection \<open>The bits of a tag word\<close>

lemma bit_VALID: "bit VALID n \<longleftrightarrow> n = 63"
  unfolding VALID_def bit_push_bit_iff bit_1_iff by (auto simp: possible_bit_word)

lemma bit_DIRTY: "bit DIRTY n \<longleftrightarrow> n = 62"
  unfolding DIRTY_def bit_push_bit_iff bit_1_iff by (auto simp: possible_bit_word)

lemma bit_key_high:
  fixes a :: "64 word"
  assumes "2 \<le> s" "62 \<le> n"
  shows "\<not> bit (drop_bit s a) n"
proof
  assume "bit (drop_bit s a) n"
  then have "bit a (s + n)" by (simp add: bit_drop_bit_eq)
  then have "s + n < 64" by (auto dest: bit_imp_le_length)
  with assms show False by simp
qed

lemma tag_valid_bit: "tag_valid w \<longleftrightarrow> bit w 63"
proof
  assume "tag_valid w"
  then have "bit (w AND VALID) 63 = bit VALID 63" by (simp add: tag_valid_def)
  then show "bit w 63" by (simp add: bit_and_iff bit_VALID)
next
  assume h: "bit w 63"
  have "w AND VALID = VALID"
    by (rule bit_eqI) (use h in \<open>auto simp: bit_and_iff bit_VALID\<close>)
  then show "tag_valid w" by (simp add: tag_valid_def)
qed

lemma bit_tag_payload: "bit (tag_payload w) n \<longleftrightarrow> bit w n \<and> n \<noteq> 63 \<and> n \<noteq> 62"
  by (auto simp: tag_payload_def bit_and_iff bit_not_iff bit_or_iff bit_VALID bit_DIRTY dest: bit_imp_le_length)

lemma bit_line_tag: "bit (line_tag c a) n \<longleftrightarrow> bit (drop_bit (idx_shift c) a) n \<or> n = 63"
  by (auto simp: line_tag_def bit_or_iff bit_VALID)

lemma bit_and_not_DIRTY: "bit (w AND NOT DIRTY) n \<longleftrightarrow> bit w n \<and> n \<noteq> 62"
  by (auto simp: bit_and_iff bit_not_iff bit_DIRTY dest: bit_imp_le_length)

lemma tag_match_iff:
  assumes "2 \<le> idx_shift c"
  shows "(w AND NOT DIRTY = line_tag c a) \<longleftrightarrow>
         (tag_valid w \<and> tag_payload w = drop_bit (idx_shift c) a)"
proof
  assume h: "w AND NOT DIRTY = line_tag c a"
  have b: "(bit w n \<and> n \<noteq> 62) = (bit (drop_bit (idx_shift c) a) n \<or> n = 63)" for n
    using arg_cong [OF h, of "\<lambda>x. bit x n"] by (simp add: bit_and_not_DIRTY bit_line_tag)
  have v: "tag_valid w" using b [of 63] by (simp add: tag_valid_bit)
  have "tag_payload w = drop_bit (idx_shift c) a"
  proof (rule bit_eqI)
    fix n
    show "bit (tag_payload w) n = bit (drop_bit (idx_shift c) a) n"
      using b [of n] bit_key_high [OF assms, of n a]
      by (cases "n = 62"; cases "n = 63") (auto simp: bit_tag_payload)
  qed
  with v show "tag_valid w \<and> tag_payload w = drop_bit (idx_shift c) a" by simp
next
  assume h: "tag_valid w \<and> tag_payload w = drop_bit (idx_shift c) a"
  have b: "(bit w n \<and> n \<noteq> 63 \<and> n \<noteq> 62) = bit (drop_bit (idx_shift c) a) n" for n
    using arg_cong [OF conjunct2 [OF h], of "\<lambda>x. bit x n"] by (simp add: bit_tag_payload)
  show "w AND NOT DIRTY = line_tag c a"
  proof (rule bit_eqI)
    fix n
    show "bit (w AND NOT DIRTY) n = bit (line_tag c a) n"
      using b [of n] h bit_key_high [OF assms, of n a]
      by (cases "n = 62"; cases "n = 63") (auto simp: bit_and_not_DIRTY bit_line_tag tag_valid_bit)
  qed
qed

lemma line_tag_clean:
  assumes "2 \<le> idx_shift c"
  shows "line_tag c a AND NOT DIRTY = line_tag c a"
proof (rule bit_eqI)
  fix n
  show "bit (line_tag c a AND NOT DIRTY) n = bit (line_tag c a) n"
    using bit_key_high [OF assms, of n a]
    by (cases "n = 62") (auto simp: bit_and_not_DIRTY bit_line_tag)
qed

lemma or_DIRTY_clean: "(w OR DIRTY) AND NOT DIRTY = w AND NOT DIRTY"
  by (rule bit_eqI) (auto simp: bit_and_iff bit_or_iff bit_not_iff bit_DIRTY)

lemma tag_valid_or_DIRTY: "tag_valid (w OR DIRTY) = tag_valid w"
  by (simp add: tag_valid_bit bit_or_iff bit_DIRTY)

lemma tag_payload_or_DIRTY: "tag_payload (w OR DIRTY) = tag_payload w"
  by (rule bit_eqI) (auto simp: bit_tag_payload bit_or_iff bit_DIRTY)

lemma tag_valid_line_tag: "tag_valid (line_tag c a)"
  by (simp add: tag_valid_bit bit_line_tag)

lemma tag_payload_line_tag:
  assumes "2 \<le> idx_shift c"
  shows "tag_payload (line_tag c a) = drop_bit (idx_shift c) a"
  using tag_match_iff [OF assms, of "line_tag c a" a] line_tag_clean [OF assms] by simp

lemma valid_dirty_zero: "\<not> valid_dirty 0"
  by (simp add: valid_dirty_def VALID_def DIRTY_def)

subsection \<open>The lookup\<close>

lemma check_tag_Some:
  assumes "check_tag c a = Some p"
  shows "\<exists>i<ways c. p = set_index c a * ways c + i \<and> tags c ! p AND NOT DIRTY = line_tag c a"
  using assms by (auto simp: check_tag_def Let_def find_Some_iff)

lemma check_tag_None:
  "check_tag c a = None \<longleftrightarrow>
     (\<forall>i<ways c. tags c ! (set_index c a * ways c + i) AND NOT DIRTY \<noteq> line_tag c a)"
  by (auto simp: check_tag_def Let_def find_None_iff)

lemma check_tag_cong:
  assumes "sets c' = sets c" "ways c' = ways c" "idx_shift c' = idx_shift c" "tags c' = tags c"
  shows "check_tag c' a = check_tag c a"
  using assms by (simp add: check_tag_def set_index_def line_tag_def)

lemma check_tag_same_line:
  assumes "drop_bit (idx_shift c) a = drop_bit (idx_shift c) a'"
  shows "check_tag c a = check_tag c a'"
  using assms by (simp add: check_tag_def set_index_def line_tag_def)

lemma slot_eq_iff:
  fixes w :: nat
  assumes "i < w" "j < w"
  shows "s * w + i = s' * w + j \<longleftrightarrow> s = s' \<and> i = j"
proof
  assume h: "s * w + i = s' * w + j"
  have "(s * w + i) div w = s" "(s' * w + j) div w = s'" using assms by simp_all
  with h have "s = s'" by simp
  with h show "s = s' \<and> i = j" by simp
qed simp

lemma truncate_fields:
  assumes "cache_sim_t.truncate c' = cache_sim_t.truncate c"
  shows "tags c' = tags c" "sets c' = sets c" "ways c' = ways c" "linesz c' = linesz c"
    "idx_shift c' = idx_shift c" "miss_handler c' = miss_handler c"
    "read_misses c' = read_misses c" "write_misses c' = write_misses c"
    "writebacks c' = writebacks c" "lfsr c' = lfsr c"
    "read_accesses c' = read_accesses c" "write_accesses c' = write_accesses c"
    "bytes_read c' = bytes_read c" "bytes_written c' = bytes_written c"
  using assms by (simp_all add: cache_sim_t.truncate_def)

subsection \<open>One access, case by case\<close>

lemma count_access_fields [simp]:
  "tags (count_access c b s) = tags c" "sets (count_access c b s) = sets c"
  "ways (count_access c b s) = ways c" "linesz (count_access c b s) = linesz c"
  "idx_shift (count_access c b s) = idx_shift c" "miss_handler (count_access c b s) = miss_handler c"
  "read_misses (count_access c b s) = read_misses c" "write_misses (count_access c b s) = write_misses c"
  "writebacks (count_access c b s) = writebacks c" "lfsr (count_access c b s) = lfsr c"
  "cache_sim_t.more (count_access c b s) = cache_sim_t.more c"
  by (simp_all add: count_access_def)

lemma count_miss_fields [simp]:
  "tags (count_miss c s) = tags c" "sets (count_miss c s) = sets c"
  "ways (count_miss c s) = ways c" "linesz (count_miss c s) = linesz c"
  "idx_shift (count_miss c s) = idx_shift c" "miss_handler (count_miss c s) = miss_handler c"
  "read_misses (count_miss c s) = (if s then read_misses c else read_misses c + 1)"
  "write_misses (count_miss c s) = (if s then write_misses c + 1 else write_misses c)"
  "writebacks (count_miss c s) = writebacks c" "lfsr (count_miss c s) = lfsr c"
  "cache_sim_t.more (count_miss c s) = cache_sim_t.more c"
  by (simp_all add: count_miss_def)

lemma count_writeback_fields [simp]:
  "tags (count_writeback c v) = tags c" "sets (count_writeback c v) = sets c"
  "ways (count_writeback c v) = ways c" "linesz (count_writeback c v) = linesz c"
  "idx_shift (count_writeback c v) = idx_shift c" "miss_handler (count_writeback c v) = miss_handler c"
  "read_misses (count_writeback c v) = read_misses c" "write_misses (count_writeback c v) = write_misses c"
  "writebacks (count_writeback c v) = (if valid_dirty v then writebacks c + 1 else writebacks c)"
  "lfsr (count_writeback c v) = lfsr c"
  "cache_sim_t.more (count_writeback c v) = cache_sim_t.more c"
  by (simp_all add: count_writeback_def)

lemma or_dirty_fields [simp]:
  "tags (or_dirty p c) = (tags c)[p := tags c ! p OR DIRTY]" "sets (or_dirty p c) = sets c"
  "ways (or_dirty p c) = ways c" "linesz (or_dirty p c) = linesz c"
  "idx_shift (or_dirty p c) = idx_shift c" "miss_handler (or_dirty p c) = miss_handler c"
  "read_misses (or_dirty p c) = read_misses c" "write_misses (or_dirty p c) = write_misses c"
  "writebacks (or_dirty p c) = writebacks c" "lfsr (or_dirty p c) = lfsr c"
  "cache_sim_t.more (or_dirty p c) = cache_sim_t.more c"
  by (simp_all add: or_dirty_def)

lemma wf_cong:
  assumes "wf_cache c" "sets c' = sets c" "ways c' = ways c" "linesz c' = linesz c"
    "idx_shift c' = idx_shift c" "length (tags c') = length (tags c)"
  shows "wf_cache c'"
  using assms by (simp add: wf_cache_def)

lemma calls_cong:
  assumes "linesz c' = linesz c" "idx_shift c' = idx_shift c" "miss_handler c' = miss_handler c"
  shows "writeback_calls c' v = writeback_calls c v" "fill_calls c' a = fill_calls c a"
  using assms by (simp_all add: writeback_calls_def fill_calls_def)

lemma set_index_cong:
  assumes "sets c' = sets c" "idx_shift c' = idx_shift c"
  shows "set_index c' a = set_index c a" "line_tag c' a = line_tag c a"
  using assms by (simp_all add: set_index_def line_tag_def)

text \<open>A miss followed by the installation of the tag makes the lookup succeed, at the slot.\<close>

lemma check_tag_after_install:
  assumes wf_cache: "wf_cache c" and miss: "check_tag c a = None" and way: "way < ways c"
    and c': "sets c' = sets c" "ways c' = ways c" "idx_shift c' = idx_shift c"
      "tags c' = (tags c)[set_index c a * ways c + way := line_tag c a]"
  shows "check_tag c' a = Some (set_index c a * ways c + way)"
proof -
  let ?idx = "set_index c a"
  let ?q = "?idx * ways c + way"
  have s2: "2 \<le> idx_shift c" using wf_linesz(2) [OF wf_cache] by simp
  have q: "?q < length (tags c)" using wf_cache way by (rule slot_in_range)
  have idx: "set_index c' a = ?idx" "line_tag c' a = line_tag c a"
    using c' by (simp_all add: set_index_def line_tag_def)
  have at: "tags c' ! ?q AND NOT DIRTY = line_tag c a"
    using q c'(4) by (simp add: line_tag_clean [OF s2])
  have other: "tags c' ! (?idx * ways c + i) AND NOT DIRTY \<noteq> line_tag c a" if "i < way" for i
  proof -
    have "i < ways c" using that way by simp
    moreover have "?idx * ways c + i \<noteq> ?q" using that by simp
    ultimately show ?thesis using miss c'(4) by (simp add: check_tag_None)
  qed
  define P where "P = (\<lambda>i. line_tag c a = tags c' ! (?idx * ways c + i) AND NOT DIRTY)"
  have Pw: "P way" using at by (simp add: P_def)
  have nP: "\<not> P i" if "i < way" for i using other [OF that] by (auto simp: P_def)
  have "find P [0..<ways c] = Some way"
    unfolding find_Some_iff
  proof (intro exI [of _ way] conjI allI impI)
    show "way < length [0..<ways c]" using way by simp
    show "P ([0..<ways c] ! way)" using way Pw by simp
    show "way = [0..<ways c] ! way" using way by simp
    fix j assume "j < way"
    then show "\<not> P ([0..<ways c] ! j)" using nP way by simp
  qed
  then show ?thesis by (simp add: check_tag_def idx c' P_def)
qed

lemma access_with_array:
  fixes chk :: "'a cache_sim_t_scheme \<Rightarrow> 64 word \<Rightarrow> error + (nat option \<times> 'a cache_sim_t_scheme)"
  assumes chk: "\<And>c a. \<exists>c'. chk c a = Inr (check_tag c a, c') \<and>
                   cache_sim_t.truncate c' = cache_sim_t.truncate c \<and> (I c \<longrightarrow> I c')"
    and vic: "\<And>c a v c'. I c \<Longrightarrow> wf_cache c \<Longrightarrow> vic c a = Inr (v, c') \<Longrightarrow>
                I c' \<and> (\<exists>way<ways c. v = tags c ! (set_index c a * ways c + way) \<and>
                  tags c' = (tags c)[set_index c a * ways c + way := line_tag c a] \<and>
                  cache_sim_t.truncate (c'\<lparr>tags := tags c, lfsr := lfsr c\<rparr>) = cache_sim_t.truncate c)"
    and Imore: "\<And>c c'. I c \<Longrightarrow> cache_sim_t.more c' = cache_sim_t.more c \<Longrightarrow>
                  sets c' = sets c \<Longrightarrow> ways c' = ways c \<Longrightarrow> I c'"
    and I: "I c" and wf_cache: "wf_cache c"
    and run: "access_with chk vic or_dirty c addr bytes store = Inr (c', calls)"
  shows "I c' \<and> sets c' = sets c \<and> ways c' = ways c \<and> linesz c' = linesz c \<and>
         idx_shift c' = idx_shift c \<and> miss_handler c' = miss_handler c \<and>
         ((\<exists>p. check_tag c addr = Some p \<and> calls = [] \<and>
               tags c' = (if store then (tags c)[p := tags c ! p OR DIRTY] else tags c) \<and>
               read_misses c' = read_misses c \<and> write_misses c' = write_misses c \<and>
               writebacks c' = writebacks c) \<or>
          (check_tag c addr = None \<and>
           (\<exists>way<ways c.
               tags c' = (tags c)[set_index c addr * ways c + way :=
                            (if store then line_tag c addr OR DIRTY else line_tag c addr)] \<and>
               calls = writeback_calls c (tags c ! (set_index c addr * ways c + way)) @ fill_calls c addr \<and>
               writebacks c' = (if valid_dirty (tags c ! (set_index c addr * ways c + way))
                                then writebacks c + 1 else writebacks c) \<and>
               read_misses c' = (if store then read_misses c else read_misses c + 1) \<and>
               write_misses c' = (if store then write_misses c + 1 else write_misses c))))"
proof -
  let ?ca = "count_access c bytes store"
  from chk [of ?ca addr] obtain c1 where
    c1: "chk ?ca addr = Inr (check_tag ?ca addr, c1)"
      "cache_sim_t.truncate c1 = cache_sim_t.truncate ?ca" "I ?ca \<longrightarrow> I c1"
    by blast
  have Ica: "I ?ca" using I by (rule Imore) simp_all
  then have I1: "I c1" using c1(3) by simp
  note f1 = truncate_fields [OF c1(2)]
  have ct: "check_tag ?ca addr = check_tag c addr" by (rule check_tag_cong) simp_all
  show ?thesis
  proof (cases "check_tag c addr")
    case (Some p)
    with run c1 ct have res: "c' = (if store then or_dirty p c1 else c1)" "calls = []"
      by (simp_all add: access_with_def)
    have "I c'" using res I1 Imore [OF I1, of "or_dirty p c1"] by simp
    then show ?thesis using Some res f1 by simp
  next
    case None
    let ?cm = "count_miss c1 store"
    have Icm: "I ?cm" using I1 by (rule Imore) simp_all
    have wfm: "wf_cache ?cm" using wf_cache by (rule wf_cong) (simp_all add: f1)
    from run c1 ct None obtain victim c2 where v: "vic ?cm addr = Inr (victim, c2)"
      by (auto simp: access_with_def split: sum.splits)
    from vic [OF Icm wfm v] obtain way where I2: "I c2" and way: "way < ways ?cm"
      and vv: "victim = tags ?cm ! (set_index ?cm addr * ways ?cm + way)"
      and t2: "tags c2 = (tags ?cm)[set_index ?cm addr * ways ?cm + way := line_tag ?cm addr]"
      and tr2: "cache_sim_t.truncate (c2\<lparr>tags := tags ?cm, lfsr := lfsr ?cm\<rparr>) = cache_sim_t.truncate ?cm"
      by blast
    note f2 = truncate_fields [OF tr2]
    have idx: "set_index ?cm addr = set_index c addr" "line_tag ?cm addr = line_tag c addr"
      by (simp_all add: set_index_def line_tag_def f1)
    let ?q = "set_index c addr * ways c + way"
    have way': "way < ways c" using way by (simp add: f1)
    have vv': "victim = tags c ! ?q" using vv by (simp add: idx f1)
    have t2': "tags c2 = (tags c)[?q := line_tag c addr]" using t2 by (simp add: idx f1)
    have g2: "sets c2 = sets c" "ways c2 = ways c" "linesz c2 = linesz c" "idx_shift c2 = idx_shift c"
      "miss_handler c2 = miss_handler c" "writebacks c2 = writebacks c"
      "read_misses c2 = (if store then read_misses c else read_misses c + 1)"
      "write_misses c2 = (if store then write_misses c + 1 else write_misses c)"
      using f2 by (simp_all add: f1)
    let ?c3 = "count_writeback c2 victim"
    have calls_eq: "writeback_calls c2 victim @ fill_calls c2 addr =
        writeback_calls c victim @ fill_calls c addr"
      using calls_cong [of c2 c] g2 by simp
    have I3: "I ?c3" using I2 by (rule Imore) simp_all
    show ?thesis
    proof (cases store)
      case False
      with run c1 ct None v have res: "c' = ?c3" "calls = writeback_calls c2 victim @ fill_calls c2 addr"
        by (simp_all add: access_with_def Let_def)
      show ?thesis using None res I3 g2 t2' vv' way' calls_eq False
        by (auto intro!: exI [of _ way])
    next
      case True
      from chk [of ?c3 addr] obtain c4 where
        c4: "chk ?c3 addr = Inr (check_tag ?c3 addr, c4)"
          "cache_sim_t.truncate c4 = cache_sim_t.truncate ?c3" "I ?c3 \<longrightarrow> I c4"
        by blast
      note f4 = truncate_fields [OF c4(2)]
      have ct3: "check_tag ?c3 addr = Some ?q"
        by (rule check_tag_after_install [OF wf_cache None way']) (simp_all add: g2 t2')
      with run c1 ct None v True c4 have res: "c' = or_dirty ?q c4"
        "calls = writeback_calls c2 victim @ fill_calls c2 addr"
        by (simp_all add: access_with_def Let_def)
      have I4: "I c4" using c4(3) I3 by simp
      have I': "I c'" unfolding res(1) using I4 by (rule Imore) simp_all
      have q: "?q < length (tags c)" using wf_cache way' by (rule slot_in_range)
      have "tags c' = (tags c)[?q := line_tag c addr OR DIRTY]"
        using q by (simp add: res(1) f4 t2')
      then show ?thesis using None res I' g2 vv' way' calls_eq True f4
        by (auto intro!: exI [of _ way])
    qed
  qed
qed

subsection \<open>Lookups and duplicates after a write\<close>

lemma or_DIRTY_nth_clean:
  "(T[p := T ! p OR DIRTY]) ! i AND NOT DIRTY = T ! i AND NOT DIRTY"
  by (cases "p < length T"; cases "i = p") (simp_all add: or_DIRTY_clean list_update_beyond)

lemma or_DIRTY_nth_valid:
  "tag_valid ((T[p := T ! p OR DIRTY]) ! i) = tag_valid (T ! i)"
  by (cases "p < length T"; cases "i = p") (simp_all add: tag_valid_or_DIRTY list_update_beyond)

lemma or_DIRTY_nth_payload:
  "tag_payload ((T[p := T ! p OR DIRTY]) ! i) = tag_payload (T ! i)"
  by (cases "p < length T"; cases "i = p") (simp_all add: tag_payload_or_DIRTY list_update_beyond)

lemma check_tag_or_dirty:
  assumes "sets c' = sets c" "ways c' = ways c" "idx_shift c' = idx_shift c"
    "tags c' = (tags c)[p := tags c ! p OR DIRTY]"
  shows "check_tag c' a = check_tag c a"
  using assms by (simp add: check_tag_def set_index_def line_tag_def or_DIRTY_nth_clean)

lemma no_dup_tags_iff:
  "no_dup_tags c \<longleftrightarrow>
     (\<forall>s < sets c. \<forall>i < ways c. \<forall>j < ways c.
        i \<noteq> j \<and> tag_valid (tags c ! (s * ways c + i)) \<and> tag_valid (tags c ! (s * ways c + j)) \<longrightarrow>
        tag_payload (tags c ! (s * ways c + i)) \<noteq> tag_payload (tags c ! (s * ways c + j)))"
  by (simp add: no_dup_tags_def no_dup_slots_def set_slots_def list_all_iff Ball_def) blast

lemma no_dup_or_dirty:
  assumes "no_dup_tags c" "sets c' = sets c" "ways c' = ways c"
    "tags c' = (tags c)[p := tags c ! p OR DIRTY]"
  shows "no_dup_tags c'"
  using assms by (simp add: no_dup_tags_iff or_DIRTY_nth_valid or_DIRTY_nth_payload)

lemma no_dup_install:
  assumes wf_cache: "wf_cache c" and nd: "no_dup_tags c" and miss: "check_tag c a = None"
    and way: "way < ways c"
    and t: "t AND NOT DIRTY = line_tag c a"
    and c': "sets c' = sets c" "ways c' = ways c"
      "tags c' = (tags c)[set_index c a * ways c + way := t]"
  shows "no_dup_tags c'"
proof -
  let ?idx = "set_index c a"
  let ?q = "?idx * ways c + way"
  have s2: "2 \<le> idx_shift c" using wf_linesz(2) [OF wf_cache] by simp
  have q: "?q < length (tags c)" using wf_cache way by (rule slot_in_range)
  have tv: "tag_valid t" and tp: "tag_payload t = drop_bit (idx_shift c) a"
    using tag_match_iff [OF s2, of t a] t by simp_all
  have old: "\<not> (tag_valid (tags c ! (?idx * ways c + j)) \<and>
      tag_payload (tags c ! (?idx * ways c + j)) = drop_bit (idx_shift c) a)" if "j < ways c" for j
    using miss that by (simp add: check_tag_None tag_match_iff [OF s2, symmetric])
  have nth: "tags c' ! (s * ways c + i) = (if s = ?idx \<and> i = way then t else tags c ! (s * ways c + i))"
    if "i < ways c" for s i
    using q slot_eq_iff [OF that way, of s ?idx] slot_eq_iff [OF way that, of ?idx s]
    by (simp add: c'(3) nth_list_update)
  show ?thesis
    unfolding no_dup_tags_iff c'(1,2)
  proof (intro allI impI)
    fix s i j
    assume s: "s < sets c" and i: "i < ways c" and j: "j < ways c"
      and h: "i \<noteq> j \<and> tag_valid (tags c' ! (s * ways c + i)) \<and> tag_valid (tags c' ! (s * ways c + j))"
    from nd s i j have o: "i \<noteq> j \<and> tag_valid (tags c ! (s * ways c + i)) \<and>
        tag_valid (tags c ! (s * ways c + j)) \<longrightarrow>
        tag_payload (tags c ! (s * ways c + i)) \<noteq> tag_payload (tags c ! (s * ways c + j))"
      by (simp add: no_dup_tags_iff)
    show "tag_payload (tags c' ! (s * ways c + i)) \<noteq> tag_payload (tags c' ! (s * ways c + j))"
    proof (cases "s = ?idx")
      case False
      then show ?thesis using h o by (simp add: nth [OF i] nth [OF j])
    next
      case True
      show ?thesis
      proof (cases "i = way")
        case iw: True
        then have "j \<noteq> way" using h by simp
        then show ?thesis using h old [OF j] True iw nth [OF i, of s] nth [OF j, of s] tp by auto
      next
        case iw: False
        show ?thesis
        proof (cases "j = way")
          case True
          then show ?thesis using h old [OF i] \<open>s = ?idx\<close> iw nth [OF i, of s] nth [OF j, of s] tp
            by auto
        next
          case False
          then show ?thesis using h o iw by (simp add: nth [OF i] nth [OF j])
        qed
      qed
    qed
  qed
qed

lemma check_tag_after_install':
  assumes wf_cache: "wf_cache c" and way: "way < ways c" and t: "t AND NOT DIRTY = line_tag c a"
    and c': "sets c' = sets c" "ways c' = ways c" "idx_shift c' = idx_shift c"
      "tags c' = (tags c)[set_index c a * ways c + way := t]"
  shows "check_tag c' a \<noteq> None"
proof -
  have q: "set_index c a * ways c + way < length (tags c)" using wf_cache way by (rule slot_in_range)
  have idx: "set_index c' a = set_index c a" "line_tag c' a = line_tag c a"
    using c' by (simp_all add: set_index_def line_tag_def)
  have "tags c' ! (set_index c' a * ways c' + way) AND NOT DIRTY = line_tag c' a"
    using q t by (simp add: idx c')
  then show ?thesis using way by (auto simp: check_tag_None c'(2))
qed

subsection \<open>Consequences for a class that keeps its lines in the tag array\<close>

lemma array_access_cases:
  assumes h: "array_hooks I chk vic" and I: "I c" and wf_cache: "wf_cache c"
    and run: "access_with chk vic or_dirty c addr bytes store = Inr (c', calls)"
  shows "I c' \<and> sets c' = sets c \<and> ways c' = ways c \<and> linesz c' = linesz c \<and>
         idx_shift c' = idx_shift c \<and> miss_handler c' = miss_handler c \<and>
         ((\<exists>p. check_tag c addr = Some p \<and> calls = [] \<and>
               tags c' = (if store then (tags c)[p := tags c ! p OR DIRTY] else tags c) \<and>
               read_misses c' = read_misses c \<and> write_misses c' = write_misses c \<and>
               writebacks c' = writebacks c) \<or>
          (check_tag c addr = None \<and>
           (\<exists>way<ways c.
               tags c' = (tags c)[set_index c addr * ways c + way :=
                            (if store then line_tag c addr OR DIRTY else line_tag c addr)] \<and>
               calls = writeback_calls c (tags c ! (set_index c addr * ways c + way)) @ fill_calls c addr \<and>
               writebacks c' = (if valid_dirty (tags c ! (set_index c addr * ways c + way))
                                then writebacks c + 1 else writebacks c) \<and>
               read_misses c' = (if store then read_misses c else read_misses c + 1) \<and>
               write_misses c' = (if store then write_misses c + 1 else write_misses c))))"
proof (rule access_with_array [where I = I and chk = chk and vic = vic, OF _ _ _ I wf_cache run])
  show "\<exists>c'. chk c a = Inr (check_tag c a, c') \<and>
      cache_sim_t.truncate c' = cache_sim_t.truncate c \<and> (I c \<longrightarrow> I c')" for c a
    using h unfolding array_hooks_def by blast
  show "I c' \<and> (\<exists>way<ways c. v = tags c ! (set_index c a * ways c + way) \<and>
          tags c' = (tags c)[set_index c a * ways c + way := line_tag c a] \<and>
          cache_sim_t.truncate (c'\<lparr>tags := tags c, lfsr := lfsr c\<rparr>) = cache_sim_t.truncate c)"
    if "I c" "wf_cache c" "vic c a = Inr (v, c')" for c a v c'
    using h that unfolding array_hooks_def by blast
  show "I c'" if "I c" "cache_sim_t.more c' = cache_sim_t.more c" "sets c' = sets c" "ways c' = ways c"
    for c c'
    using h that unfolding array_hooks_def by blast
qed

lemma array_access_props:
  assumes h: "array_hooks I chk vic" and I: "I c" and wf_cache: "wf_cache c"
    and run: "access_with chk vic or_dirty c addr bytes store = Inr (c', calls)"
  shows "I c'" and "wf_cache c'" and "check_tag c' addr \<noteq> None"
    and "no_dup_tags c \<Longrightarrow> no_dup_tags c'"
    and "calls = [] \<or> (\<exists>victim. calls = writeback_calls c victim @ fill_calls c addr)"
    and "sets c' = sets c \<and> ways c' = ways c \<and> linesz c' = linesz c \<and>
         idx_shift c' = idx_shift c \<and> miss_handler c' = miss_handler c"
    and "check_tag c addr \<noteq> None \<Longrightarrow>
         calls = [] \<and> read_misses c' = read_misses c \<and> write_misses c' = write_misses c"
proof -
  note cs = array_access_cases [OF h I wf_cache run]
  then have g: "sets c' = sets c" "ways c' = ways c" "linesz c' = linesz c"
    "idx_shift c' = idx_shift c" "miss_handler c' = miss_handler c" and I': "I c'"
    by simp_all
  show "I c'" by (rule I')
  show "sets c' = sets c \<and> ways c' = ways c \<and> linesz c' = linesz c \<and>
         idx_shift c' = idx_shift c \<and> miss_handler c' = miss_handler c" using g by simp
  have s2: "2 \<le> idx_shift c" using wf_linesz(2) [OF wf_cache] by simp
  from cs consider
    (hit) p where "check_tag c addr = Some p" "calls = []"
      "tags c' = (if store then (tags c)[p := tags c ! p OR DIRTY] else tags c)"
      "read_misses c' = read_misses c" "write_misses c' = write_misses c"
    | (miss) way where "check_tag c addr = None" "way < ways c"
      "tags c' = (tags c)[set_index c addr * ways c + way :=
                            (if store then line_tag c addr OR DIRTY else line_tag c addr)]"
      "calls = writeback_calls c (tags c ! (set_index c addr * ways c + way)) @ fill_calls c addr"
    by blast
  then have "wf_cache c' \<and> check_tag c' addr \<noteq> None \<and> (no_dup_tags c \<longrightarrow> no_dup_tags c') \<and>
      (calls = [] \<or> (\<exists>victim. calls = writeback_calls c victim @ fill_calls c addr)) \<and>
      (check_tag c addr \<noteq> None \<longrightarrow>
         calls = [] \<and> read_misses c' = read_misses c \<and> write_misses c' = write_misses c)"
  proof cases
    case hit
    have len: "length (tags c') = length (tags c)" using hit(3) by simp
    have w: "wf_cache c'" using wf_cache g(1-4) len by (rule wf_cong)
    have ct: "check_tag c' addr = check_tag c addr"
    proof (cases store)
      case True
      then show ?thesis using hit(3) g by (intro check_tag_or_dirty) simp_all
    next
      case False
      then show ?thesis using hit(3) g by (intro check_tag_cong) simp_all
    qed
    have nd: "no_dup_tags c'" if "no_dup_tags c"
    proof (cases store)
      case True
      then show ?thesis using hit(3) g that by (intro no_dup_or_dirty [of c c' p]) simp_all
    next
      case False
      then show ?thesis using hit(3) g that by (simp add: no_dup_tags_iff)
    qed
    show ?thesis using w ct hit nd by simp
  next
    case miss
    let ?t = "if store then line_tag c addr OR DIRTY else line_tag c addr"
    have t: "?t AND NOT DIRTY = line_tag c addr"
      by (simp add: or_DIRTY_clean line_tag_clean [OF s2])
    have len: "length (tags c') = length (tags c)" using miss(3) by simp
    have w: "wf_cache c'" using wf_cache g(1-4) len by (rule wf_cong)
    have ct: "check_tag c' addr \<noteq> None"
      using wf_cache miss(2) t g(1,2,4) miss(3) by (rule check_tag_after_install')
    have nd: "no_dup_tags c'" if "no_dup_tags c"
      using wf_cache that miss(1,2) t g(1,2) miss(3) by (rule no_dup_install)
    show ?thesis using w ct nd miss by auto
  qed
  then show "wf_cache c'" and "check_tag c' addr \<noteq> None" and "no_dup_tags c \<Longrightarrow> no_dup_tags c'"
    and "calls = [] \<or> (\<exists>victim. calls = writeback_calls c victim @ fill_calls c addr)"
    and "check_tag c addr \<noteq> None \<Longrightarrow>
         calls = [] \<and> read_misses c' = read_misses c \<and> write_misses c' = write_misses c"
    by simp_all
qed

lemma array_access_total:
  assumes h: "array_hooks I chk vic" and I: "I c" and wf_cache: "wf_cache c"
    and ok: "0 < ways c \<or> check_tag c addr \<noteq> None"
  shows "\<exists>c' calls. access_with chk vic or_dirty c addr bytes store = Inr (c', calls)"
proof -
  let ?ca = "count_access c bytes store"
  from h obtain c1 where
    c1: "chk ?ca addr = Inr (check_tag ?ca addr, c1)"
      "cache_sim_t.truncate c1 = cache_sim_t.truncate ?ca" "I ?ca \<longrightarrow> I c1"
    unfolding array_hooks_def by blast
  have Imore: "I c'" if "I c" "cache_sim_t.more c' = cache_sim_t.more c" "sets c' = sets c" "ways c' = ways c"
    for c c' using h that unfolding array_hooks_def by blast
  have Ica: "I ?ca" using I by (rule Imore) simp_all
  then have I1: "I c1" using c1(3) by simp
  note f1 = truncate_fields [OF c1(2)]
  have ct: "check_tag ?ca addr = check_tag c addr" by (rule check_tag_cong) simp_all
  show ?thesis
  proof (cases "check_tag c addr")
    case (Some p)
    then show ?thesis using c1 ct by (simp add: access_with_def)
  next
    case None
    with ok have w0: "0 < ways c" by simp
    let ?cm = "count_miss c1 store"
    have Icm: "I ?cm" using I1 by (rule Imore) simp_all
    have wfm: "wf_cache ?cm" using wf_cache by (rule wf_cong) (simp_all add: f1)
    have "0 < ways ?cm" using w0 by (simp add: f1)
    with h Icm wfm obtain victim c2 where v: "vic ?cm addr = Inr (victim, c2)"
      unfolding array_hooks_def by blast
    from h Icm wfm v obtain way where I2: "I c2" and way: "way < ways ?cm"
      and t2: "tags c2 = (tags ?cm)[set_index ?cm addr * ways ?cm + way := line_tag ?cm addr]"
      and tr2: "cache_sim_t.truncate (c2\<lparr>tags := tags ?cm, lfsr := lfsr ?cm\<rparr>) = cache_sim_t.truncate ?cm"
      unfolding array_hooks_def by blast
    note f2 = truncate_fields [OF tr2]
    let ?c3 = "count_writeback c2 victim"
    show ?thesis
    proof (cases store)
      case False
      then show ?thesis using c1 ct None v by (simp add: access_with_def Let_def)
    next
      case True
      from h obtain c4 where c4: "chk ?c3 addr = Inr (check_tag ?c3 addr, c4)"
        unfolding array_hooks_def by blast
      have idx: "set_index ?cm addr = set_index c addr" "line_tag ?cm addr = line_tag c addr"
        by (simp_all add: set_index_def line_tag_def f1)
      have "check_tag ?c3 addr = Some (set_index c addr * ways c + way)"
        by (rule check_tag_after_install [OF wf_cache None])
          (use way t2 f2 in \<open>simp_all add: f1 idx\<close>)
      then show ?thesis using c1 ct None v True c4 by (simp add: access_with_def Let_def)
    qed
  qed
qed

subsection \<open>The default and the linear class\<close>

lemma default_hooks: "array_hooks (\<lambda>c. True) (\<lambda>c a. Inr (check_tag c a, c)) victimize"
  unfolding array_hooks_def
proof (intro conjI allI impI)
  fix c :: "'a cache_sim_t_scheme" and a v c'
  assume h: "True \<and> wf_cache c \<and> victimize c a = Inr (v, c')"
  then have w0: "ways c \<noteq> 0" by (auto simp: victimize_def Let_def split: if_splits)
  let ?way = "unat (lfsr_next (lfsr c)) mod ways c"
  have "?way < ways c" using w0 by simp
  moreover have "v = tags c ! (set_index c a * ways c + ?way)"
    and "tags c' = (tags c)[set_index c a * ways c + ?way := line_tag c a]"
    and "cache_sim_t.truncate (c'\<lparr>tags := tags c, lfsr := lfsr c\<rparr>) = cache_sim_t.truncate c"
    using h w0 by (auto simp: victimize_def Let_def cache_sim_t.truncate_def)
  ultimately show "\<exists>way<ways c. v = tags c ! (set_index c a * ways c + way) \<and>
          tags c' = (tags c)[set_index c a * ways c + way := line_tag c a] \<and>
          cache_sim_t.truncate (c'\<lparr>tags := tags c, lfsr := lfsr c\<rparr>) = cache_sim_t.truncate c"
    by blast
next
  fix c :: "'a cache_sim_t_scheme" and a
  assume "True \<and> wf_cache c \<and> 0 < ways c"
  then show "\<exists>v c'. victimize c a = Inr (v, c')" by (simp add: victimize_def Let_def)
qed simp_all

lemma cursors_ok_more:
  assumes "cursors_ok c" "cache_sim_t.more c' = cache_sim_t.more c" "ways c' = ways c"
  shows "cursors_ok c'"
  using assms by (cases c; cases c') (simp add: cursors_ok_def)

lemma linear_hooks: "array_hooks cursors_ok (\<lambda>c a. Inr (check_tag c a, c)) linear_victimize"
  unfolding array_hooks_def
proof (intro conjI allI impI)
  fix c a v c'
  assume h: "cursors_ok c \<and> wf_cache c \<and> linear_victimize c a = Inr (v, c')"
  then have w0: "ways c \<noteq> 0" by (auto simp: linear_victimize_def Let_def split: if_splits)
  let ?way = "case evict_candidate c (set_index c a) of None \<Rightarrow> 0 | Some w \<Rightarrow> w"
  have way: "?way < ways c" using w0 h by (auto simp: cursors_ok_def split: option.splits)
  have c': "c' = c\<lparr>evict_candidate := (evict_candidate c)(set_index c a \<mapsto> (?way + 1) mod ways c),
                   tags := (tags c)[set_index c a * ways c + ?way := line_tag c a]\<rparr>"
    and v: "v = tags c ! (set_index c a * ways c + ?way)"
    using h w0 by (auto simp: linear_victimize_def Let_def)
  show "cursors_ok c'" using h w0 unfolding c' by (auto simp: cursors_ok_def)
  have "tags c' = (tags c)[set_index c a * ways c + ?way := line_tag c a]"
    and "cache_sim_t.truncate (c'\<lparr>tags := tags c, lfsr := lfsr c\<rparr>) = cache_sim_t.truncate c"
    unfolding c' by (simp_all add: cache_sim_t.truncate_def)
  with way v show "\<exists>way<ways c. v = tags c ! (set_index c a * ways c + way) \<and>
          tags c' = (tags c)[set_index c a * ways c + way := line_tag c a] \<and>
          cache_sim_t.truncate (c'\<lparr>tags := tags c, lfsr := lfsr c\<rparr>) = cache_sim_t.truncate c"
    by blast
next
  fix c a
  assume "cursors_ok c \<and> wf_cache c \<and> 0 < ways c"
  then show "\<exists>v c'. linear_victimize c a = Inr (v, c')" by (simp add: linear_victimize_def Let_def)
next
  fix c c' :: linear_evict_cache_sim_t
  assume "cursors_ok c \<and> cache_sim_t.more c' = cache_sim_t.more c \<and> sets c' = sets c \<and> ways c' = ways c"
  then show "cursors_ok c'" using cursors_ok_more by blast
qed simp_all

subsection \<open>Hawkeye\<close>

lemma lru_victim_loop_range:
  "0 < w \<Longrightarrow> 0 \<le> lru_victim_loop row w \<and> lru_victim_loop row w < int w"
proof (induction w)
  case 0
  then show ?case by simp
next
  case (Suc n)
  let ?f = "\<lambda>i (max_rrip, lru_victim).
              if max_rrip \<le> row ! i then (row ! i, int i) else (max_rrip, lru_victim)"
  obtain m v where mv: "fold ?f [0..<n] (0, - 1) = (m, v)" by (cases "fold ?f [0..<n] (0, - 1)")
  have step: "lru_victim_loop row (Suc n) = snd (?f n (m, v))"
    by (simp add: lru_victim_loop_def mv)
  show ?case
  proof (cases "n = 0")
    case True
    then have "(m, v) = (0, - 1)" using mv by simp
    then show ?thesis using True step by simp
  next
    case False
    then have "0 \<le> v \<and> v < int n" using Suc.IH mv by (simp add: lru_victim_loop_def)
    then show ?thesis using step by (auto split: if_splits)
  qed
qed

lemma lru_victim_loop_0: "lru_victim_loop row 0 = - 1"
  by (simp add: lru_victim_loop_def)

lemma length_fold_update:
  "length (fold (\<lambda>i r. if P i r then r[i := f i r] else r) xs r0) = length r0"
  by (induction xs arbitrary: r0) simp_all

lemma length_rrpv_after_evict: "length (rrpv_after_evict np row w way) = length row"
  by (simp add: rrpv_after_evict_def Let_def length_fold_update)

lemma rows_update:
  assumes "list_all P xs" "s < length xs \<Longrightarrow> P y"
  shows "list_all P (xs[s := y])"
proof (cases "s < length xs")
  case True
  then show ?thesis using assms set_update_subset_insert [of xs s y]
    by (auto simp: list_all_iff)
next
  case False
  then show ?thesis using assms by (simp add: list_update_beyond)
qed

lemma rows_nth: "list_all P xs \<Longrightarrow> s < length xs \<Longrightarrow> P (xs ! s)"
  by (simp add: list_all_length)

lemma hawkeye_arrays_ok_more:
  assumes "hawkeye_arrays_ok c" "cache_sim_t.more c' = cache_sim_t.more c"
    "sets c' = sets c" "ways c' = ways c"
  shows "hawkeye_arrays_ok c'"
  using assms by (cases c; cases c') (simp add: hawkeye_arrays_ok_def)

lemma hawkeye_check_tag_hook:
  "\<exists>c'. hawkeye_check_tag E pc c a = Inr (check_tag c a, c') \<and>
        cache_sim_t.truncate c' = cache_sim_t.truncate c \<and>
        (hawkeye_arrays_ok c \<longrightarrow> hawkeye_arrays_ok c')"
proof -
  obtain pred og hist where ss: "sampler_step E c a = (pred, og, hist)"
    by (cases "sampler_step E c a")
  define c' where "c' = snd (projr (hawkeye_check_tag E pc c a))"
  have eq: "hawkeye_check_tag E pc c a = Inr (check_tag c a, c')"
    by (simp add: c'_def hawkeye_check_tag_def Let_def ss)
  have tr: "cache_sim_t.truncate c' = cache_sim_t.truncate c"
    by (simp add: c'_def hawkeye_check_tag_def Let_def ss cache_sim_t.truncate_def)
  have ok: "hawkeye_arrays_ok c'" if h: "hawkeye_arrays_ok c"
  proof -
    have r: "list_all (\<lambda>row. length row = ways c) (rrpv c)"
      and s: "list_all (\<lambda>row. length row = ways c) (signatures c)"
      using h by (simp_all add: hawkeye_arrays_ok_def)
    have r': "list_all (\<lambda>row. length row = ways c) ((rrpv c)[i := (rrpv c ! i)[j := x]])" for i j x
      using r by (rule rows_update) (simp add: rows_nth [OF r])
    have s': "list_all (\<lambda>row. length row = ways c) ((signatures c)[i := (signatures c ! i)[j := x]])" for i j x
      using s by (rule rows_update) (simp add: rows_nth [OF s])
    show ?thesis using h r' s'
      by (simp add: c'_def hawkeye_check_tag_def Let_def ss hawkeye_arrays_ok_def)
  qed
  show ?thesis using eq tr ok by blast
qed

lemma hawkeye_victimize_hook:
  assumes I: "hawkeye_arrays_ok c" and w: "wf_cache c" and v: "hawkeye_victimize E pc c a = Inr (v, c')"
  shows "hawkeye_arrays_ok c' \<and> (\<exists>way<ways c. v = tags c ! (set_index c a * ways c + way) \<and>
          tags c' = (tags c)[set_index c a * ways c + way := line_tag c a] \<and>
          cache_sim_t.truncate (c'\<lparr>tags := tags c, lfsr := lfsr c\<rparr>) = cache_sim_t.truncate c)"
proof (cases "find (\<lambda>i. rrpv c ! set_index c a ! i = MAX_RRPV) [0..<ways c]")
  case (Some i)
  then have i: "i < ways c" by (auto simp: find_Some_iff)
  from v Some have c': "c' = c\<lparr>tags := (tags c)[set_index c a * ways c + i := line_tag c a]\<rparr>"
    and vv: "v = tags c ! (set_index c a * ways c + i)"
    by (simp_all add: hawkeye_victimize_def Let_def)
  have "hawkeye_arrays_ok c'" using I unfolding c' by (simp add: hawkeye_arrays_ok_def)
  moreover have "tags c' = (tags c)[set_index c a * ways c + i := line_tag c a]"
    and "cache_sim_t.truncate (c'\<lparr>tags := tags c, lfsr := lfsr c\<rparr>) = cache_sim_t.truncate c"
    unfolding c' by (simp_all add: cache_sim_t.truncate_def)
  ultimately show ?thesis using i vv by blast
next
  case None
  let ?set = "set_index c a"
  let ?l = "lru_victim_loop (rrpv c ! ?set) (ways c)"
  from v None have l0: "\<not> ?l < 0" by (auto simp: hawkeye_victimize_def Let_def split: if_splits)
  have w0: "0 < ways c" using l0 lru_victim_loop_0 [of "rrpv c ! ?set"] by (cases "ways c") auto
  let ?way = "nat ?l"
  have way: "?way < ways c" using lru_victim_loop_range [OF w0, of "rrpv c ! ?set"] by linarith
  let ?np = "get_prediction E (demand_predictor c) pc"
  let ?sigs = "(signatures c)[?set := (signatures c ! ?set)[?way := pc]]"
  let ?rr = "(rrpv c)[?set := rrpv_after_evict ?np (rrpv c ! ?set) (ways c) ?way]"
  from v None l0 have c': "c' = c\<lparr>tags := (tags c)[?set * ways c + ?way := line_tag c a],
                       signatures := ?sigs, rrpv := ?rr,
                       demand_predictor := decrement E (demand_predictor c) (?sigs ! ?set ! ?way)\<rparr>"
    and vv: "v = tags c ! (?set * ways c + ?way)"
    by (simp_all add: hawkeye_victimize_def Let_def)
  have r: "list_all (\<lambda>row. length row = ways c) (rrpv c)"
    and s: "list_all (\<lambda>row. length row = ways c) (signatures c)"
    using I by (simp_all add: hawkeye_arrays_ok_def)
  have r': "list_all (\<lambda>row. length row = ways c) ?rr"
    using r by (rule rows_update) (simp add: rows_nth [OF r] length_rrpv_after_evict)
  have s': "list_all (\<lambda>row. length row = ways c) ?sigs"
    using s by (rule rows_update) (simp add: rows_nth [OF s])
  have "hawkeye_arrays_ok c'" using I r' s' unfolding c' by (simp add: hawkeye_arrays_ok_def)
  moreover have "tags c' = (tags c)[?set * ways c + ?way := line_tag c a]"
    and "cache_sim_t.truncate (c'\<lparr>tags := tags c, lfsr := lfsr c\<rparr>) = cache_sim_t.truncate c"
    unfolding c' by (simp_all add: cache_sim_t.truncate_def)
  ultimately show ?thesis using way vv by blast
qed

lemma hawkeye_victimize_total:
  assumes "0 < ways c"
  shows "\<exists>v c'. hawkeye_victimize E pc c a = Inr (v, c')"
  using lru_victim_loop_range [OF assms, of "rrpv c ! set_index c a"]
  by (cases "find (\<lambda>i. rrpv c ! set_index c a ! i = MAX_RRPV) [0..<ways c]")
     (simp_all add: hawkeye_victimize_def Let_def)

lemma hawkeye_hooks:
  "array_hooks hawkeye_arrays_ok (hawkeye_check_tag E pc) (hawkeye_victimize E pc)"
  unfolding array_hooks_def
  using hawkeye_check_tag_hook [of E pc] hawkeye_victimize_hook [of _ E pc]
    hawkeye_victimize_total [of _ E pc] hawkeye_arrays_ok_more
  by blast

subsection \<open>The map of the fully-associative class\<close>

lemma map_of_map_set: "map_of (map_set k v m) k = Some v"
  by (induction m) auto

lemma set_map_set: "set (map_set k v m) \<subseteq> insert (k, v) (set m)"
  by (induction m) (auto split: if_splits)

lemma keys_map_set: "fst ` set (map_set k v m) = insert k (fst ` set m)"
proof (induction m)
  case Nil
  show ?case by simp
next
  case (Cons e m)
  obtain k' v' where e: "e = (k', v')" by (cases e)
  show ?case using Cons.IH by (simp add: e insert_commute)
qed

lemma length_map_set: "length (map_set k v m) \<le> Suc (length m)"
  by (induction m) auto

lemma strict_sorted_map_set:
  assumes "sorted_wrt (<) (map fst m)"
  shows "sorted_wrt (<) (map fst (map_set k v m))"
  using assms
proof (induction m)
  case Nil
  then show ?case by simp
next
  case (Cons e m)
  obtain k' v' where e: "e = (k', v')" by (cases e)
  from Cons.prems have tl: "sorted_wrt (<) (map fst m)" and hd: "\<forall>x\<in>fst ` set m. k' < x"
    by (auto simp: e)
  show ?case
  proof (cases "k < k'")
    case True
    then show ?thesis using Cons.prems hd by (auto simp: e)
  next
    case False
    show ?thesis
    proof (cases "k = k'")
      case True
      then show ?thesis using Cons.prems by (simp add: e)
    next
      case ne: False
      with False have lt: "k' < k" by simp
      have "\<forall>x\<in>fst ` set (map_set k v m). k' < x"
        using hd lt by (simp add: keys_map_set)
      then show ?thesis using False ne Cons.IH [OF tl] by (auto simp: e)
    qed
  qed
qed

lemma strict_sorted_erase_at:
  assumes "sorted_wrt (<) (map fst m)"
  shows "sorted_wrt (<) (map fst (map_erase_at n m))"
proof (cases "n < length m")
  case True
  let ?ks = "map fst m"
  have "?ks = take n ?ks @ ?ks ! n # drop (Suc n) ?ks"
    using True by (intro id_take_nth_drop) simp
  then have "sorted_wrt (<) (take n ?ks @ ?ks ! n # drop (Suc n) ?ks)" using assms by simp
  then have "sorted_wrt (<) (take n ?ks @ drop (Suc n) ?ks)"
    by (auto simp: sorted_wrt_append)
  then show ?thesis by (simp add: map_erase_at_def take_map drop_map)
next
  case False
  then show ?thesis using assms by (simp add: map_erase_at_def)
qed

lemma set_map_erase_at: "set (map_erase_at n m) \<subseteq> set m"
  by (auto simp: map_erase_at_def dest: in_set_takeD in_set_dropD)

lemma length_map_erase_at: "n < length m \<Longrightarrow> Suc (length (map_erase_at n m)) = length m"
  by (auto simp: map_erase_at_def)

lemma map_fst_map_modify: "map fst (map_modify k f m) = map fst m"
  by (simp add: map_modify_def)

lemma map_of_None_keys: "map_of m k = None \<longleftrightarrow> k \<notin> fst ` set m"
  by (simp add: map_of_eq_None_iff)

lemma fa_check_tag_None: "fa_check_tag c a = None \<longleftrightarrow> drop_bit (idx_shift c) a \<notin> fst ` set (fa_tags c)"
proof -
  have "fa_check_tag c a = None \<longleftrightarrow> map_of (fa_tags c) (drop_bit (idx_shift c) a) = None"
    by (cases "map_of (fa_tags c) (drop_bit (idx_shift c) a)") (simp_all add: fa_check_tag_def)
  then show ?thesis by (simp add: map_of_None_keys)
qed

lemma key_clean:
  fixes a :: "64 word"
  assumes "2 \<le> s"
  shows "drop_bit s a AND (VALID OR DIRTY) = 0"
proof (rule bit_eqI)
  fix n
  show "bit (drop_bit s a AND (VALID OR DIRTY)) n = bit (0 :: 64 word) n"
    using bit_key_high [OF assms, of n a]
    by (auto simp: bit_and_iff bit_or_iff bit_VALID bit_DIRTY)
qed

lemma fa_wf_alt:
  "fa_wf c \<longleftrightarrow> wf_cache c \<and> sorted_wrt (<) (map fst (fa_tags c)) \<and>
     length (fa_tags c) \<le> ways c \<and> (\<forall>e\<in>set (fa_tags c). fa_entry_ok e)"
  by (auto simp: fa_wf_def strict_sorted_iff list_all_iff)

lemma fa_entry_new:
  assumes "2 \<le> idx_shift c"
  shows "fa_entry_ok (drop_bit (idx_shift c) a, drop_bit (idx_shift c) a OR VALID)"
  using line_tag_clean [OF assms, of a] key_clean [OF assms, of a]
  by (simp add: fa_entry_ok_def line_tag_def)

lemma fa_entries_modify:
  assumes "\<forall>e\<in>set m. fa_entry_ok e"
  shows "\<forall>e\<in>set (map_modify k (\<lambda>v. v OR DIRTY) m). fa_entry_ok e"
  using assms by (auto simp: map_modify_def fa_entry_ok_def or_DIRTY_clean)

subsection \<open>One access to the fully-associative cache\<close>

lemma fa_tags_count [simp]:
  "fa_tags (count_access c b s) = fa_tags c"
  "fa_tags (count_miss c s) = fa_tags c"
  "fa_tags (count_writeback c v) = fa_tags c"
  by (simp_all add: count_access_def count_miss_def count_writeback_def)

lemma fa_or_dirty_fields [simp]:
  "fa_tags (fa_or_dirty k c) = map_modify k (\<lambda>v. v OR DIRTY) (fa_tags c)"
  "tags (fa_or_dirty k c) = tags c" "sets (fa_or_dirty k c) = sets c"
  "ways (fa_or_dirty k c) = ways c" "linesz (fa_or_dirty k c) = linesz c"
  "idx_shift (fa_or_dirty k c) = idx_shift c" "miss_handler (fa_or_dirty k c) = miss_handler c"
  "read_misses (fa_or_dirty k c) = read_misses c" "write_misses (fa_or_dirty k c) = write_misses c"
  "writebacks (fa_or_dirty k c) = writebacks c"
  by (simp_all add: fa_or_dirty_def)

lemma fa_check_tag_cong:
  assumes "idx_shift c' = idx_shift c" "fa_tags c' = fa_tags c"
  shows "fa_check_tag c' a = fa_check_tag c a"
  by (simp only: fa_check_tag_def assms)

lemma fa_check_tag_Some:
  assumes "fa_check_tag c a = Some k"
  shows "k = drop_bit (idx_shift c) a"
  using assms by (auto simp: fa_check_tag_def split: option.splits)

text \<open>What \<open>fa_victimize\<close> returns.\<close>

lemma fa_victimize_cases:
  assumes v: "fa_victimize c a = Inr (victim, c')"
  shows "\<exists>m. set m \<subseteq> set (fa_tags c) \<and>
           (sorted_wrt (<) (map fst (fa_tags c)) \<longrightarrow> sorted_wrt (<) (map fst m)) \<and>
           (length (fa_tags c) \<le> ways c \<longrightarrow> Suc (length m) \<le> ways c) \<and>
           (length (fa_tags c) \<noteq> ways c \<longrightarrow> victim = 0) \<and>
           fa_tags c' = map_set (drop_bit (idx_shift c) a) (drop_bit (idx_shift c) a OR VALID) m \<and>
           cache_sim_t.truncate (c'\<lparr>lfsr := lfsr c\<rparr>) = cache_sim_t.truncate c"
proof (cases "length (fa_tags c) = ways c")
  case True
  with v have w0: "ways c \<noteq> 0" by (auto simp: fa_victimize_def Let_def split: if_splits)
  let ?n = "unat (lfsr_next (lfsr c)) mod ways c"
  let ?m = "map_erase_at ?n (fa_tags c)"
  have n: "?n < length (fa_tags c)" using w0 True by simp
  from v True w0 have c': "c' = c\<lparr>lfsr := lfsr_next (lfsr c),
      fa_tags := map_set (drop_bit (idx_shift c) a) (drop_bit (idx_shift c) a OR VALID) ?m\<rparr>"
    by (simp add: fa_victimize_def Let_def)
  have "Suc (length ?m) \<le> ways c" using length_map_erase_at [OF n] True by simp
  then show ?thesis
    using set_map_erase_at [of ?n "fa_tags c"] strict_sorted_erase_at [of "fa_tags c" ?n] True
    unfolding c' by (intro exI [of _ ?m]) (simp add: cache_sim_t.truncate_def)
next
  case False
  with v have c': "c' = c\<lparr>fa_tags := map_set (drop_bit (idx_shift c) a)
      (drop_bit (idx_shift c) a OR VALID) (fa_tags c)\<rparr>" and z: "victim = 0"
    by (simp_all add: fa_victimize_def Let_def)
  show ?thesis using False z unfolding c'
    by (intro exI [of _ "fa_tags c"]) (auto simp: cache_sim_t.truncate_def)
qed

lemma fa_victimize_total:
  assumes "0 < ways c \<or> length (fa_tags c) \<noteq> ways c"
  shows "\<exists>v c'. fa_victimize c a = Inr (v, c')"
  using assms by (auto simp: fa_victimize_def Let_def)

lemma fa_access_cases:
  assumes wf: "fa_wf c" and run: "fa_access c addr bytes store = Inr (c', calls)"
  shows "fa_wf c' \<and> fa_check_tag c' addr \<noteq> None \<and>
         sets c' = sets c \<and> ways c' = ways c \<and> linesz c' = linesz c \<and>
         idx_shift c' = idx_shift c \<and> miss_handler c' = miss_handler c \<and>
         ((fa_check_tag c addr \<noteq> None \<and> calls = [] \<and> read_misses c' = read_misses c \<and>
           write_misses c' = write_misses c \<and> writebacks c' = writebacks c) \<or>
          (fa_check_tag c addr = None \<and>
           (\<exists>victim. calls = writeback_calls c victim @ fill_calls c addr \<and>
              (length (fa_tags c) \<noteq> ways c \<longrightarrow> victim = 0) \<and>
              writebacks c' = (if valid_dirty victim then writebacks c + 1 else writebacks c))))"
proof -
  let ?k = "drop_bit (idx_shift c) addr"
  let ?ca = "count_access c bytes store"
  from wf have w: "wf_cache c" and srt: "sorted_wrt (<) (map fst (fa_tags c))"
    and len: "length (fa_tags c) \<le> ways c" and ent: "\<forall>e\<in>set (fa_tags c). fa_entry_ok e"
    by (simp_all add: fa_wf_alt)
  have s2: "2 \<le> idx_shift c" using wf_linesz(2) [OF w] by simp
  have ct: "fa_check_tag ?ca addr = fa_check_tag c addr" by (rule fa_check_tag_cong) simp_all
  show ?thesis
  proof (cases "fa_check_tag c addr")
    case (Some k)
    then have k: "k = ?k" by (rule fa_check_tag_Some)
    from run Some ct have res: "c' = (if store then fa_or_dirty ?k ?ca else ?ca)" "calls = []"
      by (simp_all add: fa_access_def access_with_def k)
    have g: "sets c' = sets c" "ways c' = ways c" "linesz c' = linesz c"
      "idx_shift c' = idx_shift c" "miss_handler c' = miss_handler c"
      "read_misses c' = read_misses c" "write_misses c' = write_misses c"
      "writebacks c' = writebacks c" "length (tags c') = length (tags c)"
      by (simp_all add: res)
    have keys: "map fst (fa_tags c') = map fst (fa_tags c)"
      by (simp add: res map_fst_map_modify)
    have ent': "\<forall>e\<in>set (fa_tags c'). fa_entry_ok e"
      using ent fa_entries_modify [OF ent, of ?k] by (simp add: res)
    have "length (fa_tags c') = length (fa_tags c)" using arg_cong [OF keys, of length] by simp
    then have "fa_wf c'" using wf_cong [OF w g(1-4,9)] srt len ent' keys by (simp add: fa_wf_alt g)
    moreover have "fa_check_tag c addr \<noteq> None" using Some by simp
    then have "?k \<in> fst ` set (fa_tags c)" by (simp add: fa_check_tag_None)
    then have "fa_check_tag c' addr \<noteq> None"
      using arg_cong [OF keys, of set] by (simp add: fa_check_tag_None g)
    ultimately show ?thesis using Some g res by simp
  next
    case None
    let ?cm = "count_miss ?ca store"
    from run None ct obtain victim c2 where v: "fa_victimize ?cm addr = Inr (victim, c2)"
      by (auto simp: fa_access_def access_with_def split: sum.splits)
    from fa_victimize_cases [OF v] obtain m where m: "set m \<subseteq> set (fa_tags c)"
      "sorted_wrt (<) (map fst m)" "Suc (length m) \<le> ways c" "length (fa_tags c) \<noteq> ways c \<longrightarrow> victim = 0"
      "fa_tags c2 = map_set ?k (?k OR VALID) m"
      and tr: "cache_sim_t.truncate (c2\<lparr>lfsr := lfsr ?cm\<rparr>) = cache_sim_t.truncate ?cm"
      using srt len by auto
    note f2 = truncate_fields [OF tr]
    have g2: "sets c2 = sets c" "ways c2 = ways c" "linesz c2 = linesz c" "idx_shift c2 = idx_shift c"
      "miss_handler c2 = miss_handler c" "writebacks c2 = writebacks c" "length (tags c2) = length (tags c)"
      using f2 by simp_all
    let ?c3 = "count_writeback c2 victim"
    have calls_eq: "writeback_calls c2 victim @ fill_calls c2 addr =
        writeback_calls c victim @ fill_calls c addr"
      using calls_cong [of c2 c] g2 by simp
    have ct3: "fa_check_tag ?c3 addr = Some ?k"
      by (simp add: fa_check_tag_def g2 m(5) map_of_map_set)
    from run None ct v have res: "c' = (if store then fa_or_dirty ?k ?c3 else ?c3)"
      "calls = writeback_calls c2 victim @ fill_calls c2 addr"
      by (cases store; simp add: fa_access_def access_with_def Let_def ct3)+
    have g: "sets c' = sets c" "ways c' = ways c" "linesz c' = linesz c"
      "idx_shift c' = idx_shift c" "miss_handler c' = miss_handler c"
      "length (tags c') = length (tags c)"
      "writebacks c' = (if valid_dirty victim then writebacks c + 1 else writebacks c)"
      by (simp_all add: res g2)
    have keys: "map fst (fa_tags c') = map fst (map_set ?k (?k OR VALID) m)"
      by (simp add: res m(5) map_fst_map_modify)
    have ent2: "\<forall>e\<in>set (map_set ?k (?k OR VALID) m). fa_entry_ok e"
      using set_map_set [of ?k "?k OR VALID" m] m(1) ent fa_entry_new [OF s2, of addr] by auto
    have ent': "\<forall>e\<in>set (fa_tags c'). fa_entry_ok e"
      using ent2 fa_entries_modify [OF ent2, of ?k] by (simp add: res m(5))
    have len': "length (fa_tags c') \<le> ways c"
      using arg_cong [OF keys, of length] length_map_set [of ?k "?k OR VALID" m] m(3) by simp
    have srt': "sorted_wrt (<) (map fst (fa_tags c'))"
      using strict_sorted_map_set [OF m(2), of ?k "?k OR VALID"] keys by simp
    have "fa_wf c'" using wf_cong [OF w g(1-4,6)] srt' len' ent' by (simp add: fa_wf_alt g)
    moreover have "fa_check_tag c' addr \<noteq> None"
      using arg_cong [OF keys, of set] by (simp add: fa_check_tag_None g keys_map_set)
    ultimately show ?thesis using None g res calls_eq m(4) by auto
  qed
qed

lemma fa_access_total:
  assumes ok: "0 < ways c \<or> length (fa_tags c) \<noteq> ways c \<or> fa_check_tag c addr \<noteq> None"
  shows "\<exists>c' calls. fa_access c addr bytes store = Inr (c', calls)"
proof -
  let ?k = "drop_bit (idx_shift c) addr"
  let ?ca = "count_access c bytes store"
  have ct: "fa_check_tag ?ca addr = fa_check_tag c addr" by (rule fa_check_tag_cong) simp_all
  show ?thesis
  proof (cases "fa_check_tag c addr")
    case (Some k)
    then show ?thesis using ct by (simp add: fa_access_def access_with_def)
  next
    case None
    let ?cm = "count_miss ?ca store"
    have "0 < ways ?cm \<or> length (fa_tags ?cm) \<noteq> ways ?cm" using ok None by simp
    from fa_victimize_total [OF this] obtain victim c2 where v: "fa_victimize ?cm addr = Inr (victim, c2)"
      by blast
    from fa_victimize_cases [OF v] obtain m where m: "fa_tags c2 = map_set ?k (?k OR VALID) m"
      and tr: "cache_sim_t.truncate (c2\<lparr>lfsr := lfsr ?cm\<rparr>) = cache_sim_t.truncate ?cm"
      by auto
    note f2 = truncate_fields [OF tr]
    have ct3: "fa_check_tag (count_writeback c2 victim) addr = Some ?k"
      using f2 by (simp add: fa_check_tag_def m map_of_map_set)
    show ?thesis using None ct v ct3 by (simp add: fa_access_def access_with_def Let_def)
  qed
qed

lemma fa_wf_no_dup:
  assumes "fa_wf c"
  shows "fa_no_dup c"
proof -
  from assms have srt: "sorted_wrt (<) (map fst (fa_tags c))"
    and ent: "\<forall>e\<in>set (fa_tags c). fa_entry_ok e"
    by (simp_all add: fa_wf_alt)
  have d: "distinct (map fst (fa_tags c))" using srt by (simp add: strict_sorted_iff)
  have pay: "tag_payload (snd e) = fst e" if "e \<in> set (fa_tags c)" for e
  proof (rule bit_eqI)
    fix n
    from ent that have e: "snd e AND NOT DIRTY = fst e OR VALID" "fst e AND (VALID OR DIRTY) = 0"
      by (simp_all add: fa_entry_ok_def)
    have b1: "(bit (snd e) n \<and> n \<noteq> 62) = (bit (fst e) n \<or> n = 63)"
      using arg_cong [OF e(1), of "\<lambda>x. bit x n"] by (simp add: bit_and_not_DIRTY bit_or_iff bit_VALID)
    have b2: "\<not> (bit (fst e) n \<and> (n = 63 \<or> n = 62))"
      using arg_cong [OF e(2), of "\<lambda>x. bit x n"] by (simp add: bit_and_iff bit_or_iff bit_VALID bit_DIRTY)
    show "bit (tag_payload (snd e)) n = bit (fst e) n"
      using b1 b2 by (auto simp: bit_tag_payload)
  qed
  have "no_dup_slots (map snd (fa_tags c))"
    unfolding no_dup_slots_def list_all_iff
  proof (intro ballI notI)
    fix i j
    assume i: "i \<in> set [0..<length (map snd (fa_tags c))]"
      and j: "j \<in> set [0..<length (map snd (fa_tags c))]"
      and h: "i \<noteq> j \<and> tag_valid (map snd (fa_tags c) ! i) \<and> tag_valid (map snd (fa_tags c) ! j) \<and>
        tag_payload (map snd (fa_tags c) ! i) = tag_payload (map snd (fa_tags c) ! j)"
    from i j have ij: "i < length (fa_tags c)" "j < length (fa_tags c)" by simp_all
    then have "fst (fa_tags c ! i) = fst (fa_tags c ! j)"
      using h pay [of "fa_tags c ! i"] pay [of "fa_tags c ! j"] by simp
    then have "map fst (fa_tags c) ! i = map fst (fa_tags c) ! j" using ij by simp
    moreover have "(map fst (fa_tags c) ! i = map fst (fa_tags c) ! j) = (i = j)"
      by (rule nth_eq_iff_index_eq [OF d]) (use ij in simp_all)
    ultimately have "i = j" by (simp only:)
    with h show False by simp
  qed
  with d show ?thesis by (simp add: fa_no_dup_def)
qed

subsection \<open>The sizes that construct passes on\<close>

lemma atoi_range: "atoi x = Inr v \<Longrightarrow> - (2 ^ 31) \<le> v \<and> v < 2 ^ 31"
  by (simp add: atoi_def Let_def split: if_splits)

lemma size_t_of_int_range:
  assumes "- (2 ^ 31) \<le> v" "v < 2 ^ 31"
  shows "size_t_int (size_t_of_int v)"
proof (cases "0 \<le> v")
  case True
  then have "v mod 2 ^ 64 = v" using assms by simp
  moreover have "nat v < 2 ^ 31" using assms True by (simp add: nat_less_iff)
  ultimately show ?thesis by (simp add: size_t_int_def size_t_of_int_def)
next
  case False
  have "(v + 2 ^ 64) mod 2 ^ 64 = v + 2 ^ 64" using assms False by (intro mod_pos_pos_trivial) simp_all
  then have m: "v mod 2 ^ 64 = v + 2 ^ 64" by simp
  have "2 ^ 64 - 2 ^ 31 \<le> nat (v + 2 ^ 64)" "nat (v + 2 ^ 64) < 2 ^ 64"
    using assms False by (simp_all add: nat_less_iff le_nat_iff)
  then show ?thesis using m by (simp add: size_t_int_def size_t_of_int_def)
qed

lemma config_fields_range:
  assumes "config_fields config = Inr (s, w, l, ty)"
  shows "size_t_int s \<and> size_t_int w \<and> size_t_int l"
  using assms
  by (auto simp: config_fields_def Let_def split: option.splits sum.splits
      dest!: atoi_range intro!: size_t_of_int_range)

lemma pow2_not_negative:
  assumes "size_t_int n" "n \<noteq> 0" "n AND (n - 1) = 0"
  shows "n < 2 ^ 31"
proof (rule ccontr)
  assume "\<not> n < 2 ^ 31"
  with assms(1) have r: "2 ^ 64 - 2 ^ 31 \<le> n" "n < 2 ^ 64" by (simp_all add: size_t_int_def)
  from pow2_nat [OF assms(2,3)] obtain k where k: "n = 2 ^ k" by blast
  with r(2) have "k < 64" by (simp only: power_strict_increasing_iff) 
  then have "k \<le> 63" by simp
  then have "(2::nat) ^ k \<le> 2 ^ 63" by (intro power_increasing) simp_all
  with r(1) k show False by simp
qed

lemma alloc_no_wrap:
  fixes s w :: nat
  assumes s: "0 < s" "s < 2 ^ 31" and w: "size_t_int w" and a: "(s * w) mod 2 ^ 64 < 2 ^ 61"
  shows "w < 2 ^ 31 \<and> s * w < 2 ^ 61"
proof (cases "w < 2 ^ 31")
  case True
  have "s * w < 2 ^ 31 * 2 ^ 31" using s True by (intro mult_strict_mono) simp_all
  then have "s * w < 2 ^ 64" by simp
  then show ?thesis using a True by simp
next
  case False
  with w have r: "2 ^ 64 - 2 ^ 31 \<le> w" "w < 2 ^ 64" by (simp_all add: size_t_int_def)
  define m where "m = 2 ^ 64 - w"
  have m: "0 < m" "m \<le> 2 ^ 31" "w + m = 2 ^ 64" using r by (simp_all add: m_def)
  have "s * m \<le> 2 ^ 31 * 2 ^ 31" using s m by (intro mult_mono) simp_all
  then have sm: "s * m \<le> 2 ^ 62" by simp
  have sm0: "0 < s * m" using s m by simp
  define x where "x = 2 ^ 64 - s * m"
  have x: "x + s * m = 2 ^ 64" "x < 2 ^ 64" "2 ^ 61 \<le> x" using sm sm0 by (simp_all add: x_def)
  have "s * w + s * m = s * 2 ^ 64" using m(3) by (simp add: distrib_left [symmetric])
  then have "s * w + s * m = (s - 1) * 2 ^ 64 + (x + s * m)" using s x(1)
    by (simp add: algebra_simps)
  then have "s * w = (s - 1) * 2 ^ 64 + x" by simp
  then have "(s * w) mod 2 ^ 64 = x" using x(2) by simp
  with a x(3) show ?thesis by simp
qed

subsection \<open>What construct builds\<close>

lemma tag_valid_0: "\<not> tag_valid 0"
  by (simp add: tag_valid_bit)

lemma cache_sim_t_new_wf:
  assumes new: "cache_sim_t_new s w l nm = Inr b"
    and r: "size_t_int s" "size_t_int w" "size_t_int l"
  shows "wf_cache b \<and> no_dup_tags b \<and> sets b = s \<and> ways b = w \<and> linesz b = l \<and> w < 2 ^ 31"
proof -
  from new have s: "s \<noteq> 0" "s AND (s - 1) = 0" and l: "8 \<le> l" "l AND (l - 1) = 0"
    and a: "(s * w) mod 2 ^ 64 < 2 ^ 61"
    by (auto simp: cache_sim_t_new_def Let_def split: if_splits)
  from new s l a have b: "sets b = s" "ways b = w" "linesz b = l" "idx_shift b = idx_shift_loop l 0"
    "tags b = replicate ((s * w) mod 2 ^ 64) 0"
    by (auto simp: cache_sim_t_new_def Let_def split: if_splits)
  have s31: "s < 2 ^ 31" using r(1) s by (rule pow2_not_negative)
  have sw: "w < 2 ^ 31" "s * w < 2 ^ 61" using alloc_no_wrap [OF _ s31 r(2) a] s(1) by simp_all
  then have m: "(s * w) mod 2 ^ 64 = s * w" by simp
  have tb: "tags b = replicate (s * w) 0" using b(5) m by simp
  have l64: "l < 2 ^ 64" using r(3) by (auto simp: size_t_int_def)
  have wfb: "wf_cache b" using s l s31 sw l64 by (simp add: wf_cache_def b(1-4) tb)
  have "no_dup_tags b"
    unfolding no_dup_tags_iff
  proof (intro allI impI)
    fix s' i j
    assume "s' < sets b" "i < ways b" "j < ways b"
    then have "Suc s' \<le> s" and iw: "i < w" by (simp_all add: b)
    then have "Suc s' * w \<le> s * w" by (intro mult_le_mono1)
    moreover have "s' * w + i < Suc s' * w" using iw by simp
    ultimately have "Suc s' * w \<le> s * w" "s' * w + i < Suc s' * w" by simp_all
    then have "s' * w + i < s * w" by simp
    then have "\<not> tag_valid (tags b ! (s' * ways b + i))" by (simp add: b(1-4) tb tag_valid_0)
    moreover assume "i \<noteq> j \<and> tag_valid (tags b ! (s' * ways b + i)) \<and> tag_valid (tags b ! (s' * ways b + j))"
    ultimately show "tag_payload (tags b ! (s' * ways b + i)) \<noteq> tag_payload (tags b ! (s' * ways b + j))"
      by simp
  qed
  with wfb b sw show ?thesis by simp
qed

lemma extend_fields [simp]:
  "sets (cache_sim_t.extend b m) = sets b" "ways (cache_sim_t.extend b m) = ways b"
  "linesz (cache_sim_t.extend b m) = linesz b" "idx_shift (cache_sim_t.extend b m) = idx_shift b"
  "tags (cache_sim_t.extend b m) = tags b" "cache_sim_t.more (cache_sim_t.extend b m) = m"
  by (simp_all add: cache_sim_t.extend_def)

lemma wf_cache_extend: "wf_cache (cache_sim_t.extend b m) = wf_cache b"
  by (simp add: wf_cache_def)

lemma no_dup_tags_extend: "no_dup_tags (cache_sim_t.extend b m) = no_dup_tags b"
  by (simp add: no_dup_tags_iff)

lemma map_sum_Inr_iff: "map_sum f g x = Inr c \<longleftrightarrow> (\<exists>b. x = Inr b \<and> c = g b)"
  by (cases x) auto

lemma construct_wf:
  assumes "construct E config nm = Inr c"
  shows "wf_any c \<and> no_dup_any c"
proof -
  from assms obtain s w l ty where cf: "config_fields config = Inr (s, w, l, ty)"
    by (auto simp: construct_def split: sum.splits)
  note r = config_fields_range [OF cf]
  consider (lin) b where "linear_evict_cache_sim_t_new s w l nm = Inr b" "c = Linear_cache b"
    | (hawk) b where "hawkeye_cache_sim_t_new E s w l nm = Inr b" "c = Hawkeye_cache b"
    | (fa) b where "fa_cache_sim_t_new w l nm = Inr b" "c = FA_cache b" "s = 1"
    | (dflt) b where "cache_sim_t_new s w l nm = Inr b" "c = Default_cache b"
    using assms cf by (auto simp: construct_def map_sum_Inr_iff split: if_splits)
  then show ?thesis
  proof cases
    case lin
    then obtain b0 where b0: "cache_sim_t_new s w l nm = Inr b0"
      and b: "b = cache_sim_t.extend b0 \<lparr>evict_candidate = Map.empty\<rparr>"
      by (auto simp: linear_evict_cache_sim_t_new_def split: sum.splits)
    from cache_sim_t_new_wf [OF b0] r have "wf_cache b0" "no_dup_tags b0" by simp_all
    moreover have "cursors_ok b" by (cases b0) (simp add: b cursors_ok_def cache_sim_t.extend_def)
    ultimately show ?thesis
      by (simp add: lin linear_wf_def b wf_cache_extend no_dup_tags_extend)
  next
    case hawk
    then obtain b0 where b0: "cache_sim_t_new s w l nm = Inr b0"
      and b: "b = cache_sim_t.extend b0
          \<lparr>rrpv = replicate s (replicate w MAX_RRPV),
           signatures = replicate s (replicate w 0),
           perset_optgen = replicate s (OPTgen_init E (of_nat w - 2)),
           perset_timer = replicate s 0,
           demand_predictor = predictor_new E,
           addr_history = replicate s []\<rparr>"
      by (auto simp: hawkeye_cache_sim_t_new_def split: sum.splits)
    from cache_sim_t_new_wf [OF b0] r have w: "wf_cache b0" "no_dup_tags b0" "sets b0 = s" "ways b0 = w"
      "w < 2 ^ 31" by simp_all
    have "hawkeye_arrays_ok b" using w(3-5)
      by (cases b0) (simp add: b hawkeye_arrays_ok_def cache_sim_t.extend_def list_all_iff)
    with w show ?thesis
      by (simp add: hawk hawkeye_wf_def b wf_cache_extend no_dup_tags_extend)
  next
    case fa
    then obtain b0 where b0: "cache_sim_t_new 1 w l nm = Inr b0"
      and b: "b = cache_sim_t.extend b0 \<lparr>fa_tags = []\<rparr>"
      by (auto simp: fa_cache_sim_t_new_def split: sum.splits)
    have "size_t_int 1" by (simp add: size_t_int_def)
    from cache_sim_t_new_wf [OF b0 this] r have w: "wf_cache b0" by simp
    have "fa_tags b = []" by (cases b0) (simp add: b cache_sim_t.extend_def)
    then have "fa_wf b" using w by (simp add: fa_wf_alt b wf_cache_extend)
    then show ?thesis using fa_wf_no_dup by (simp add: fa)
  next
    case dflt
    from cache_sim_t_new_wf [OF dflt(1)] r show ?thesis by (simp add: dflt)
  qed
qed

subsection \<open>Downstream calls and the four classes together\<close>

lemma dvd_unat_take_bit_0:
  fixes w :: "64 word"
  assumes "take_bit k w = 0"
  shows "2 ^ k dvd unat w"
proof -
  have "take_bit k (unat w) = unat (take_bit k w)" by (simp add: unsigned_take_bit_eq)
  then have "take_bit k (unat w) = 0" using assms by simp
  then show ?thesis by (simp add: take_bit_eq_0_iff)
qed

lemma writeback_addr_aligned:
  fixes x :: "64 word"
  shows "2 ^ k dvd unat (push_bit k x)"
  by (rule dvd_unat_take_bit_0, rule bit_eqI) (auto simp: bit_take_bit_iff bit_push_bit_iff)

lemma fill_addr_aligned:
  fixes a :: "64 word"
  shows "2 ^ k dvd unat (a AND NOT (of_nat (2 ^ k) - 1))"
proof -
  have m: "(of_nat (2 ^ k) - 1 :: 64 word) = mask k" by (simp add: mask_eq_decr_exp)
  show ?thesis unfolding m
    by (rule dvd_unat_take_bit_0, rule bit_eqI)
      (auto simp: bit_take_bit_iff bit_and_iff bit_not_iff bit_mask_iff)
qed

lemma calls_aligned:
  assumes wf: "wf_cache c" and call: "call \<in> set (writeback_calls c victim @ fill_calls c addr)"
  shows "linesz c dvd unat (fst call) \<and> fst (snd call) = linesz c"
proof -
  note l = wf_linesz(1) [OF wf]
  from call consider
    (wb) "call = (push_bit (idx_shift c) (victim AND NOT (VALID OR DIRTY)), linesz c, True)"
    | (fill) "call = (addr AND NOT (of_nat (linesz c) - 1), linesz c, False)"
    by (auto simp only: writeback_calls_def fill_calls_def set_append set_simps split: if_splits)
  then show ?thesis
  proof cases
    case wb
    show ?thesis unfolding wb
      using writeback_addr_aligned [of "idx_shift c" "victim AND NOT (VALID OR DIRTY)"]
      by (simp only: fst_conv snd_conv l simp_thms)
  next
    case fill
    show ?thesis unfolding fill
      using fill_addr_aligned [of "idx_shift c" addr]
      by (simp only: fst_conv snd_conv l simp_thms)
  qed
qed

lemma truncate_sel [simp]:
  "sets (cache_sim_t.truncate c) = sets c" "ways (cache_sim_t.truncate c) = ways c"
  "linesz (cache_sim_t.truncate c) = linesz c" "idx_shift (cache_sim_t.truncate c) = idx_shift c"
  "miss_handler (cache_sim_t.truncate c) = miss_handler c"
  "read_misses (cache_sim_t.truncate c) = read_misses c"
  "write_misses (cache_sim_t.truncate c) = write_misses c"
  "writebacks (cache_sim_t.truncate c) = writebacks c"
  "tags (cache_sim_t.truncate c) = tags c"
  by (simp_all add: cache_sim_t.truncate_def)

lemma wf_cache_truncate [simp]: "wf_cache (cache_sim_t.truncate c) = wf_cache c"
  by (simp add: wf_cache_def)

lemma calls_truncate [simp]:
  "writeback_calls (cache_sim_t.truncate c) v = writeback_calls c v"
  "fill_calls (cache_sim_t.truncate c) a = fill_calls c a"
  by (simp_all add: writeback_calls_def fill_calls_def)

lemma wf_any_base: "wf_any c \<Longrightarrow> wf_cache (base_of c)"
  by (cases c) (simp_all add: fa_wf_def linear_wf_def hawkeye_wf_def)

text \<open>One access through the base-class pointer.\<close>

lemma access_any_props:
  assumes wf: "wf_any c" and run: "access_any E c (pc, addr, bytes, store) = Inr (c', calls)"
  shows "wf_any c' \<and> is_hit c' addr \<and> (no_dup_any c \<longrightarrow> no_dup_any c') \<and>
         policy_of c' = policy_of c \<and>
         sets (base_of c') = sets (base_of c) \<and> ways (base_of c') = ways (base_of c) \<and>
         linesz (base_of c') = linesz (base_of c) \<and> idx_shift (base_of c') = idx_shift (base_of c) \<and>
         miss_handler (base_of c') = miss_handler (base_of c) \<and>
         (if is_hit c addr
          then calls = [] \<and> read_misses (base_of c') = read_misses (base_of c) \<and>
               write_misses (base_of c') = write_misses (base_of c)
          else \<exists>victim. calls = writeback_calls (base_of c) victim @ fill_calls (base_of c) addr)"
proof (cases c)
  case (Default_cache b)
  with run obtain b' where r: "access b addr bytes store = Inr (b', calls)" and c': "c' = Default_cache b'"
    by (auto simp: map_sum_Inr_iff)
  have w: "wf_cache b" using wf Default_cache by simp
  note r' = r [unfolded access_def]
  note p = array_access_props [OF default_hooks _ w r']
  note cs = array_access_cases [OF default_hooks _ w r']
  show ?thesis using p cs by (auto simp: Default_cache c')
next
  case (Linear_cache b)
  with run obtain b' where r: "linear_access b addr bytes store = Inr (b', calls)" and c': "c' = Linear_cache b'"
    by (auto simp: map_sum_Inr_iff)
  have w: "wf_cache b" "cursors_ok b" using wf Linear_cache by (simp_all add: linear_wf_def)
  note r' = r [unfolded linear_access_def]
  note p = array_access_props [OF linear_hooks w(2,1) r']
  note cs = array_access_cases [OF linear_hooks w(2,1) r']
  show ?thesis using p cs by (auto simp: Linear_cache c' linear_wf_def)
next
  case (Hawkeye_cache b)
  with run obtain b' where r: "hawkeye_access E pc b addr bytes store = Inr (b', calls)"
    and c': "c' = Hawkeye_cache b'"
    by (auto simp: map_sum_Inr_iff)
  have w: "wf_cache b" "hawkeye_arrays_ok b" using wf Hawkeye_cache by (simp_all add: hawkeye_wf_def)
  note r' = r [unfolded hawkeye_access_def]
  note p = array_access_props [OF hawkeye_hooks w(2,1) r']
  note cs = array_access_cases [OF hawkeye_hooks w(2,1) r']
  show ?thesis using p cs by (auto simp: Hawkeye_cache c' hawkeye_wf_def)
next
  case (FA_cache b)
  with run obtain b' where r: "fa_access b addr bytes store = Inr (b', calls)" and c': "c' = FA_cache b'"
    by (auto simp: map_sum_Inr_iff)
  have w: "fa_wf b" using wf FA_cache by simp
  note cs = fa_access_cases [OF w r]
  then have "fa_wf b'" by simp
  then have "fa_no_dup b'" by (rule fa_wf_no_dup)
  then show ?thesis using cs by (auto simp: FA_cache c')
qed

subsection \<open>The word that a miss evicts\<close>

lemma map_modify_map_set:
  "k \<notin> fst ` set m \<Longrightarrow> map_modify k f (map_set k v m) = map_set k (f v) m"
proof (induction m)
  case Nil
  show ?case by (simp add: map_modify_def)
next
  case (Cons e m)
  obtain k' v' where e: "e = (k', v')" by (cases e)
  from Cons.prems have ne: "k \<noteq> k'" and nin: "k \<notin> fst ` set m" by (auto simp: e)
  have id: "map_modify k f m = m" using nin by (induction m) (auto simp: map_modify_def)
  show ?case
  proof (cases "k < k'")
    case True
    then show ?thesis using ne id by (simp add: e map_modify_def)
  next
    case False
    then show ?thesis using ne Cons.IH [OF nin] by (simp add: e map_modify_def)
  qed
qed

lemma array_access_miss_evicted:
  assumes h: "array_hooks I chk vic" and I: "I c" and wf: "wf_cache c"
    and run: "access_with chk vic or_dirty c addr bytes store = Inr (c', calls)"
    and miss: "check_tag c addr = None"
  shows "\<exists>victim. array_evicted c addr store victim (tags c') \<and>
           calls = writeback_calls c victim @ fill_calls c addr"
proof -
  from array_access_cases [OF h I wf run] miss obtain way where w: "way < ways c"
    and t: "tags c' = (tags c)[set_index c addr * ways c + way :=
                            (if store then line_tag c addr OR DIRTY else line_tag c addr)]"
    and cl: "calls = writeback_calls c (tags c ! (set_index c addr * ways c + way)) @ fill_calls c addr"
    by auto
  have "array_evicted c addr store (tags c ! (set_index c addr * ways c + way)) (tags c')"
    unfolding array_evicted_def list_ex_iff using w t by (intro bexI [of _ way]) simp_all
  with cl show ?thesis by blast
qed

lemma fa_access_miss_evicted:
  assumes wf: "fa_wf c" and run: "fa_access c addr bytes store = Inr (c', calls)"
    and miss: "fa_check_tag c addr = None"
  shows "\<exists>victim. fa_evicted c addr store victim (fa_tags c') \<and>
           calls = writeback_calls c victim @ fill_calls c addr"
proof -
  let ?k = "drop_bit (idx_shift c) addr"
  let ?v = "if store then (?k OR VALID) OR DIRTY else ?k OR VALID"
  let ?ca = "count_access c bytes store"
  let ?cm = "count_miss ?ca store"
  have ct: "fa_check_tag ?ca addr = None" using miss fa_check_tag_cong [of ?ca c addr] by simp
  from run ct obtain victim c2 where v: "fa_victimize ?cm addr = Inr (victim, c2)"
    by (auto simp: fa_access_def access_with_def split: sum.splits)
  have nin: "?k \<notin> fst ` set (fa_tags c)" using miss by (simp add: fa_check_tag_None)
  have "\<exists>m. fa_tags c2 = map_set ?k (?k OR VALID) m \<and> ?k \<notin> fst ` set m \<and>
          linesz c2 = linesz c \<and> idx_shift c2 = idx_shift c \<and> miss_handler c2 = miss_handler c \<and>
          (if length (fa_tags c) = ways c
           then \<exists>n < length (fa_tags c). victim = snd (fa_tags c ! n) \<and> m = map_erase_at n (fa_tags c)
           else victim = 0 \<and> m = fa_tags c)"
  proof (cases "length (fa_tags c) = ways c")
    case True
    with v have w0: "ways c \<noteq> 0" by (auto simp: fa_victimize_def Let_def split: if_splits)
    let ?n = "unat (lfsr_next (lfsr c)) mod ways c"
    have n: "?n < length (fa_tags c)" using w0 True by simp
    from v True w0 have c2: "c2 = ?cm\<lparr>lfsr := lfsr_next (lfsr c),
        fa_tags := map_set ?k (?k OR VALID) (map_erase_at ?n (fa_tags c))\<rparr>"
      and vi: "victim = snd (fa_tags c ! ?n)"
      by (simp_all add: fa_victimize_def Let_def)
    have "?k \<notin> fst ` set (map_erase_at ?n (fa_tags c))"
      using nin set_map_erase_at [of ?n "fa_tags c"] by blast
    then show ?thesis using True n vi
      by (intro exI [of _ "map_erase_at ?n (fa_tags c)"]) (auto simp: c2)
  next
    case False
    with v have c2: "c2 = ?cm\<lparr>fa_tags := map_set ?k (?k OR VALID) (fa_tags c)\<rparr>" and z: "victim = 0"
      by (simp_all add: fa_victimize_def Let_def)
    show ?thesis using False nin z by (intro exI [of _ "fa_tags c"]) (simp add: c2)
  qed
  then obtain m where m: "fa_tags c2 = map_set ?k (?k OR VALID) m" and km: "?k \<notin> fst ` set m"
    and g2: "linesz c2 = linesz c" "idx_shift c2 = idx_shift c" "miss_handler c2 = miss_handler c"
    and sh: "if length (fa_tags c) = ways c
           then \<exists>n < length (fa_tags c). victim = snd (fa_tags c ! n) \<and> m = map_erase_at n (fa_tags c)
           else victim = 0 \<and> m = fa_tags c"
    by blast
  let ?c3 = "count_writeback c2 victim"
  have ct3: "fa_check_tag ?c3 addr = Some ?k"
    by (simp add: fa_check_tag_def g2 m map_of_map_set)
  from run ct v have res: "c' = (if store then fa_or_dirty ?k ?c3 else ?c3)"
    "calls = writeback_calls c2 victim @ fill_calls c2 addr"
    by (cases store; simp add: fa_access_def access_with_def Let_def ct3)+
  have calls_eq: "calls = writeback_calls c victim @ fill_calls c addr"
    using calls_cong [of c2 c] g2 res(2) by simp
  have ft: "fa_tags c' = map_set ?k ?v m"
    using map_modify_map_set [OF km, of "\<lambda>v. v OR DIRTY" "?k OR VALID"] by (simp add: res m)
  have "fa_evicted c addr store victim (fa_tags c')"
  proof (cases "length (fa_tags c) = ways c")
    case True
    with sh obtain n where "n < length (fa_tags c)" "victim = snd (fa_tags c ! n)"
      "m = map_erase_at n (fa_tags c)" by auto
    then have "\<exists>n \<in> set [0..<length (fa_tags c)]. victim = snd (fa_tags c ! n) \<and>
        fa_tags c' = map_set ?k ?v (map_erase_at n (fa_tags c))"
      using ft by (intro bexI [of _ n]) simp_all
    then show ?thesis unfolding fa_evicted_def Let_def list_ex_iff using True by simp
  next
    case False
    with sh show ?thesis unfolding fa_evicted_def Let_def ft by simp
  qed
  with calls_eq show ?thesis by blast
qed

lemma access_any_miss_evicted:
  assumes wf: "wf_any c" and run: "access_any E c (pc, addr, bytes, store) = Inr (c', calls)"
    and miss: "\<not> is_hit c addr"
  shows "\<exists>victim. evicted c addr store victim c' \<and>
           calls = writeback_calls (base_of c) victim @ fill_calls (base_of c) addr"
proof (cases c)
  case (Default_cache b)
  with run obtain b' where r: "access b addr bytes store = Inr (b', calls)" and c': "c' = Default_cache b'"
    by (auto simp: map_sum_Inr_iff)
  have w: "wf_cache b" using wf Default_cache by simp
  have m: "check_tag b addr = None" using miss Default_cache by simp
  from array_access_miss_evicted [OF default_hooks _ w r [unfolded access_def] m]
  show ?thesis by (simp add: Default_cache c' calls_truncate)
next
  case (Linear_cache b)
  with run obtain b' where r: "linear_access b addr bytes store = Inr (b', calls)" and c': "c' = Linear_cache b'"
    by (auto simp: map_sum_Inr_iff)
  have w: "wf_cache b" "cursors_ok b" using wf Linear_cache by (simp_all add: linear_wf_def)
  have m: "check_tag b addr = None" using miss Linear_cache by simp
  from array_access_miss_evicted [OF linear_hooks w(2,1) r [unfolded linear_access_def] m]
  show ?thesis by (simp add: Linear_cache c' calls_truncate)
next
  case (Hawkeye_cache b)
  with run obtain b' where r: "hawkeye_access E pc b addr bytes store = Inr (b', calls)"
    and c': "c' = Hawkeye_cache b'"
    by (auto simp: map_sum_Inr_iff)
  have w: "wf_cache b" "hawkeye_arrays_ok b" using wf Hawkeye_cache by (simp_all add: hawkeye_wf_def)
  have m: "check_tag b addr = None" using miss Hawkeye_cache by simp
  from array_access_miss_evicted [OF hawkeye_hooks w(2,1) r [unfolded hawkeye_access_def] m]
  show ?thesis by (simp add: Hawkeye_cache c' calls_truncate)
next
  case (FA_cache b)
  with run obtain b' where r: "fa_access b addr bytes store = Inr (b', calls)" and c': "c' = FA_cache b'"
    by (auto simp: map_sum_Inr_iff)
  have w: "fa_wf b" using wf FA_cache by simp
  have m: "fa_check_tag b addr = None" using miss FA_cache by simp
  from fa_access_miss_evicted [OF w r m]
  show ?thesis by (simp add: FA_cache c' calls_truncate)
qed

text \<open>On a miss in a well-formed cache the two states determine the evicted word.\<close>

lemma array_evicted_unique:
  assumes wf: "wf_cache c" and miss: "check_tag c addr = None"
    and e1: "array_evicted c addr store v1 t" and e2: "array_evicted c addr store v2 t"
  shows "v1 = v2"
proof -
  let ?s = "set_index c addr * ways c"
  let ?new = "if store then line_tag c addr OR DIRTY else line_tag c addr"
  have s2: "2 \<le> idx_shift c" using wf_linesz(2) [OF wf] by simp
  have cl: "?new AND NOT DIRTY = line_tag c addr"
    using line_tag_clean [OF s2, of addr] by (simp add: or_DIRTY_clean)
  from e1 obtain w1 where w1: "w1 < ways c" "v1 = tags c ! (?s + w1)" "t = (tags c)[?s + w1 := ?new]"
    unfolding array_evicted_def list_ex_iff by auto
  from e2 obtain w2 where w2: "w2 < ways c" "v2 = tags c ! (?s + w2)" "t = (tags c)[?s + w2 := ?new]"
    unfolding array_evicted_def list_ex_iff by auto
  have r1: "?s + w1 < length (tags c)" using wf w1(1) by (rule slot_in_range)
  have r2: "?s + w2 < length (tags c)" using wf w2(1) by (rule slot_in_range)
  have "w1 = w2"
  proof (rule ccontr)
    assume ne: "w1 \<noteq> w2"
    have "t ! (?s + w1) = ?new" using r1 by (simp add: w1(3))
    moreover have "t ! (?s + w1) = tags c ! (?s + w1)" using ne by (simp add: w2(3))
    ultimately have "tags c ! (?s + w1) AND NOT DIRTY = line_tag c addr" using cl by simp
    with miss w1(1) show False by (simp add: check_tag_None)
  qed
  then show ?thesis using w1(2) w2(2) by simp
qed

lemma map_erase_map_set:
  "k \<notin> fst ` set m \<Longrightarrow> map_erase k (map_set k v m) = m"
proof (induction m)
  case Nil
  show ?case by (simp add: map_erase_def)
next
  case (Cons e m)
  obtain k' v' where e: "e = (k', v')" by (cases e)
  from Cons.prems have ne: "k \<noteq> k'" and nin: "k \<notin> fst ` set m" by (auto simp: e)
  have id: "map_erase k m = m" using nin by (induction m) (auto simp: map_erase_def)
  show ?case
  proof (cases "k < k'")
    case True
    then show ?thesis using ne id by (simp add: e map_erase_def)
  next
    case False
    then show ?thesis using ne Cons.IH [OF nin] by (simp add: e map_erase_def)
  qed
qed

lemma erase_at_inj:
  assumes d: "distinct m" and n1: "n1 < length m" and n2: "n2 < length m"
    and eq: "map_erase_at n1 m = map_erase_at n2 m"
  shows "n1 = n2"
proof (rule ccontr)
  assume ne: "n1 \<noteq> n2"
  have in1: "m ! n2 \<in> set (map_erase_at n1 m)"
  proof (cases "n2 < n1")
    case True
    then have "m ! n2 = take n1 m ! n2" by simp
    moreover have "n2 < length (take n1 m)" using True n1 by simp
    ultimately have "m ! n2 \<in> set (take n1 m)" by (metis nth_mem)
    then show ?thesis by (simp add: map_erase_at_def)
  next
    case False
    with ne have lt: "Suc n1 \<le> n2" by simp
    then have "drop (Suc n1) m ! (n2 - Suc n1) = m ! n2" using n2 by simp
    moreover have "n2 - Suc n1 < length (drop (Suc n1) m)" using lt n2 by simp
    ultimately have "m ! n2 \<in> set (drop (Suc n1) m)" by (metis nth_mem)
    then show ?thesis by (simp add: map_erase_at_def)
  qed
  have "m = take n2 m @ m ! n2 # drop (Suc n2) m" using n2 by (rule id_take_nth_drop)
  with d have "distinct (take n2 m @ m ! n2 # drop (Suc n2) m)" by simp
  then have "m ! n2 \<notin> set (take n2 m) \<and> m ! n2 \<notin> set (drop (Suc n2) m)" by auto
  then have "m ! n2 \<notin> set (map_erase_at n2 m)" by (simp add: map_erase_at_def)
  with in1 eq show False by simp
qed

lemma fa_evicted_unique:
  assumes wf: "fa_wf c" and miss: "fa_check_tag c addr = None"
    and e1: "fa_evicted c addr store v1 t" and e2: "fa_evicted c addr store v2 t"
  shows "v1 = v2"
proof (cases "length (fa_tags c) = ways c")
  case False
  with e1 e2 show ?thesis by (simp add: fa_evicted_def Let_def)
next
  case True
  let ?k = "drop_bit (idx_shift c) addr"
  let ?v = "if store then (?k OR VALID) OR DIRTY else ?k OR VALID"
  from e1 True obtain n1 where n1: "n1 < length (fa_tags c)" "v1 = snd (fa_tags c ! n1)"
    "t = map_set ?k ?v (map_erase_at n1 (fa_tags c))"
    unfolding fa_evicted_def Let_def list_ex_iff by auto
  from e2 True obtain n2 where n2: "n2 < length (fa_tags c)" "v2 = snd (fa_tags c ! n2)"
    "t = map_set ?k ?v (map_erase_at n2 (fa_tags c))"
    unfolding fa_evicted_def Let_def list_ex_iff by auto
  have nin: "?k \<notin> fst ` set (fa_tags c)" using miss by (simp add: fa_check_tag_None)
  have k1: "?k \<notin> fst ` set (map_erase_at n1 (fa_tags c))"
    using nin set_map_erase_at [of n1 "fa_tags c"] by blast
  have k2: "?k \<notin> fst ` set (map_erase_at n2 (fa_tags c))"
    using nin set_map_erase_at [of n2 "fa_tags c"] by blast
  have "map_erase_at n1 (fa_tags c) = map_erase ?k t" using map_erase_map_set [OF k1] n1(3) by simp
  also have "\<dots> = map_erase_at n2 (fa_tags c)" using map_erase_map_set [OF k2] n2(3) by simp
  finally have eq: "map_erase_at n1 (fa_tags c) = map_erase_at n2 (fa_tags c)" .
  from wf have "sorted_wrt (<) (map fst (fa_tags c))" by (simp add: fa_wf_alt)
  then have "distinct (map fst (fa_tags c))" by (simp add: strict_sorted_iff)
  then have "distinct (fa_tags c)" by (simp add: distinct_map)
  from erase_at_inj [OF this n1(1) n2(1) eq] show ?thesis using n1(2) n2(2) by simp
qed

lemma evicted_unique:
  assumes wf: "wf_any c" and miss: "\<not> is_hit c addr"
    and e1: "evicted c addr store v1 c'" and e2: "evicted c addr store v2 c'"
  shows "v1 = v2"
proof (cases c)
  case (Default_cache b)
  have "wf_cache b" "check_tag b addr = None" using wf miss Default_cache by simp_all
  then show ?thesis using e1 e2 unfolding Default_cache evicted.simps by (rule array_evicted_unique)
next
  case (Linear_cache b)
  have "wf_cache b" "check_tag b addr = None" using wf miss Linear_cache by (simp_all add: linear_wf_def)
  then show ?thesis using e1 e2 unfolding Linear_cache evicted.simps by (rule array_evicted_unique)
next
  case (Hawkeye_cache b)
  have "wf_cache b" "check_tag b addr = None" using wf miss Hawkeye_cache by (simp_all add: hawkeye_wf_def)
  then show ?thesis using e1 e2 unfolding Hawkeye_cache evicted.simps by (rule array_evicted_unique)
next
  case (FA_cache b)
  have w: "fa_wf b" "fa_check_tag b addr = None" using wf miss FA_cache by simp_all
  from e1 FA_cache obtain b' where c': "c' = FA_cache b'" by (cases c') simp_all
  from w show ?thesis using e1 e2 unfolding FA_cache c' evicted.simps by (rule fa_evicted_unique)
qed

section \<open>Evaluation\<close>

lemma replicate_numeral_Cons: "replicate (numeral k) x = x # replicate (pred_numeral k) x"
  by (simp add: numeral_eq_Suc)

lemma idx_shift_loop_64: "idx_shift_loop 64 0 = 6"
  by (simp add: idx_shift_loop.simps)

lemma cache_sim_t_new_2_2_64: "cache_sim_t_new 2 2 64 nm = Inr (cache_2_2_64 nm)"
  by (simp add: cache_sim_t_new_def idx_shift_loop_64 lfsr_new_def replicate_numeral_Cons
      cache_2_2_64_def)

lemmas access_eval =
  access_def access_with_def check_tag_def victimize_def or_dirty_def set_index_def line_tag_def
  VALID_def DIRTY_def lfsr_next_def Let_def count_access_def count_miss_def count_writeback_def
  writeback_calls_def fill_calls_def valid_dirty_def upt_conv_Cons

lemma S5_first:
  "access (cache_2_2_64 nm) 0 8 False = Inr (cache_2_2_64_after_first nm, [])"
  by (simp add: access_eval cache_2_2_64_def cache_2_2_64_after_first_def)

lemma S5_second:
  "access (cache_2_2_64_after_first nm) 0 8 True =
     Inr ((cache_2_2_64_after_first nm)\<lparr>tags := [0, 0xC000000000000000, 0, 0],
            write_accesses := 1, bytes_written := 8\<rparr>, [])"
  by (simp add: access_eval cache_2_2_64_after_first_def)

lemma S5_third:
  "access ((cache_2_2_64_after_first nm)\<lparr>tags := [0, 0xC000000000000000, 0, 0],
            write_accesses := 1, bytes_written := 8\<rparr>) 0 8 False =
     Inr (cache_2_2_64_after_S5 nm, [])"
  by (simp add: access_eval cache_2_2_64_after_first_def cache_2_2_64_after_S5_def)

lemma S5_accesses:
  "accesses E (Default_cache (cache_2_2_64 nm))
     [(pc1, 0, 8, False), (pc2, 0, 8, True), (pc3, 0, 8, False)] =
   Inr (Default_cache (cache_2_2_64_after_S5 nm))"
  by (simp add: S5_first S5_second S5_third)

lemma config_fields_2_2_64: "config_fields ''2:2:64'' = Inr (2, 2, 64, None)"
  by (simp add: config_fields_def atoi_def isspace_def isdigit_def size_t_of_int_def)

lemma construct_2_2_64: "construct E ''2:2:64'' nm = Inr (Default_cache (cache_2_2_64 nm))"
  by (simp add: construct_def config_fields_2_2_64 cache_sim_t_new_2_2_64)

text \<open>
  C7. A cache built as \<open>sets = 2\<close>, \<open>ways = 2\<close>, \<open>linesz = 64\<close> with the default policy
  (its LFSR starts at 1, no miss handler is wired) that receives the accesses
  \<open>(0x000, 8, read)\<close>, \<open>(0x000, 8, write)\<close>, \<open>(0x000, 8, read)\<close> ends with
  \<open>read_accesses = 2\<close>, \<open>write_accesses = 1\<close>, \<open>read_misses + write_misses = 1\<close>,
  \<open>bytes_read = 16\<close> and \<open>bytes_written = 8\<close>.
\<close>

theorem scenario_S5_totals:
  "cache_sim_t_new 2 2 64 nm = Inr (cache_2_2_64 nm) \<and>
   lfsr (cache_2_2_64 nm) = 1 \<and> \<not> miss_handler (cache_2_2_64 nm) \<and>
   accesses E (Default_cache (cache_2_2_64 nm))
     [(pc1, 0, 8, False), (pc2, 0, 8, True), (pc3, 0, 8, False)] =
     Inr (Default_cache (cache_2_2_64_after_S5 nm)) \<and>
   read_accesses (cache_2_2_64_after_S5 nm) = 2 \<and>
   write_accesses (cache_2_2_64_after_S5 nm) = 1 \<and>
   read_misses (cache_2_2_64_after_S5 nm) + write_misses (cache_2_2_64_after_S5 nm) = 1 \<and>
   bytes_read (cache_2_2_64_after_S5 nm) = 16 \<and>
   bytes_written (cache_2_2_64_after_S5 nm) = 8"
proof -
  note run = S5_accesses [of E nm pc1 pc2 pc3]
  have init: "lfsr (cache_2_2_64 nm) = 1 \<and> \<not> miss_handler (cache_2_2_64 nm)"
    by (simp add: cache_2_2_64_def)
  have totals: "read_accesses (cache_2_2_64_after_S5 nm) = 2 \<and>
      write_accesses (cache_2_2_64_after_S5 nm) = 1 \<and>
      read_misses (cache_2_2_64_after_S5 nm) + write_misses (cache_2_2_64_after_S5 nm) = 1 \<and>
      bytes_read (cache_2_2_64_after_S5 nm) = 16 \<and>
      bytes_written (cache_2_2_64_after_S5 nm) = 8"
    by (simp add: cache_2_2_64_after_S5_def)
  from cache_sim_t_new_2_2_64 run init totals show ?thesis by blast
qed

lemma config_fields_2_0_64: "config_fields ''2:0:64'' = Inr (2, 0, 64, None)"
  by (simp add: config_fields_def atoi_def isspace_def isdigit_def size_t_of_int_def)

lemma construct_2_0_64: "construct E ''2:0:64'' nm = Inr (Default_cache (cache_2_0_64 nm))"
  by (simp add: construct_def config_fields_2_0_64 cache_sim_t_new_def idx_shift_loop_64
      lfsr_new_def cache_2_0_64_def)

lemma cache_sim_t_new_Usage:
  "cache_sim_t_new s w l nm = Inl Usage \<longleftrightarrow>
     \<not> (s \<noteq> 0 \<and> s AND (s - 1) = 0 \<and> 8 \<le> l \<and> l AND (l - 1) = 0)"
  by (auto simp: cache_sim_t_new_def Let_def)

lemma access_cache_2_0_64: "access (cache_2_0_64 nm) addr bytes store = Inl DivByZero"
  by (simp add: access_def access_with_def check_tag_def victimize_def count_access_def
      count_miss_def Let_def cache_2_0_64_def)

text \<open>
  C8. Whether construction ends in the usage error depends on \<open>sets\<close> and \<open>linesz\<close>
  alone, never on \<open>ways\<close>: the configuration \<open>2:0:64\<close> builds a default-policy cache
  with \<open>ways = 0\<close>. Every lookup in it misses, \<open>victimize\<close> takes \<open>lfsr.next() % ways\<close>
  with \<open>ways = 0\<close>, and the access ends in the division by zero.
\<close>

theorem ways_zero_reaches_division_by_zero:
  "(cache_sim_t_new s w l nm = Inl Usage \<longleftrightarrow>
      \<not> (s \<noteq> 0 \<and> s AND (s - 1) = 0 \<and> 8 \<le> l \<and> l AND (l - 1) = 0)) \<and>
   construct E ''2:0:64'' nm = Inr (Default_cache (cache_2_0_64 nm)) \<and>
   ways (cache_2_0_64 nm) = 0 \<and>
   check_tag (cache_2_0_64 nm) addr = None \<and>
   victimize (cache_2_0_64 nm) addr = Inl DivByZero \<and>
   access (cache_2_0_64 nm) addr bytes store = Inl DivByZero"
proof -
  have "ways (cache_2_0_64 nm) = 0" by (simp add: cache_2_0_64_def)
  moreover have "check_tag (cache_2_0_64 nm) addr = None"
    by (simp add: check_tag_def cache_2_0_64_def)
  moreover have "victimize (cache_2_0_64 nm) addr = Inl DivByZero"
    by (simp add: victimize_def cache_2_0_64_def Let_def)
  ultimately show ?thesis
    using cache_sim_t_new_Usage construct_2_0_64 access_cache_2_0_64 by blast
qed

section \<open>The claims about every policy\<close>

lemma accesses_inv:
  assumes "wf_any c" "no_dup_any c" "accesses E c evs = Inr c'"
  shows "wf_any c' \<and> no_dup_any c'"
  using assms
proof (induction evs arbitrary: c)
  case Nil
  then show ?case by simp
next
  case (Cons ev evs)
  obtain pc addr bytes store where ev: "ev = (pc, addr, bytes, store)" by (cases ev)
  from Cons.prems(3) obtain c1 calls where s: "access_any E c ev = Inr (c1, calls)"
    and r: "accesses E c1 evs = Inr c'"
    by (auto split: sum.splits)
  from access_any_props [OF Cons.prems(1) s [unfolded ev]] Cons.prems(2)
  have "wf_any c1" "no_dup_any c1" by simp_all
  then show ?case using r by (rule Cons.IH)
qed

text \<open>
  C3. Within any one set no two slots with the VALID bit set hold the same tag payload
  (in the fully-associative cache: no two map entries share a key), after every call of
  every sequence of accesses, whatever the policy. The property and the shape of the
  cache hold for every cache \<open>construct\<close> builds, and every sequence of accesses that
  returns keeps both.
\<close>

theorem tag_payloads_unique:
  "(construct E config nm = Inr c \<longrightarrow> wf_any c \<and> no_dup_any c) \<and>
   (wf_any c \<and> no_dup_any c \<and> accesses E c evs = Inr c' \<longrightarrow> wf_any c' \<and> no_dup_any c')"
  using construct_wf accesses_inv by blast

lemma is_hit_same_line:
  assumes "drop_bit (idx_shift (base_of c)) a1 = drop_bit (idx_shift (base_of c)) a2"
  shows "is_hit c a1 = is_hit c a2"
proof (cases c)
  case (Default_cache b)
  then show ?thesis using assms check_tag_same_line [of b a1 a2] by simp
next
  case (FA_cache b)
  then show ?thesis using assms by (simp add: fa_check_tag_None)
next
  case (Linear_cache b)
  then show ?thesis using assms check_tag_same_line [of b a1 a2] by simp
next
  case (Hawkeye_cache b)
  then show ?thesis using assms check_tag_same_line [of b a1 a2] by simp
qed

lemma access_any_total:
  assumes wf: "wf_any c" and ok: "is_hit c addr \<or> 0 < ways (base_of c)"
  shows "\<exists>c' calls. access_any E c (pc, addr, bytes, store) = Inr (c', calls)"
proof (cases c)
  case (Default_cache b)
  have "\<exists>c' calls. access b addr bytes store = Inr (c', calls)"
    unfolding access_def
    by (rule array_access_total [OF default_hooks]) (use wf ok Default_cache in auto)
  then show ?thesis by (auto simp: Default_cache)
next
  case (Linear_cache b)
  have "\<exists>c' calls. linear_access b addr bytes store = Inr (c', calls)"
    unfolding linear_access_def
    by (rule array_access_total [OF linear_hooks]) (use wf ok Linear_cache in \<open>auto simp: linear_wf_def\<close>)
  then show ?thesis by (auto simp: Linear_cache)
next
  case (Hawkeye_cache b)
  have "\<exists>c' calls. hawkeye_access E pc b addr bytes store = Inr (c', calls)"
    unfolding hawkeye_access_def
    by (rule array_access_total [OF hawkeye_hooks]) (use wf ok Hawkeye_cache in \<open>auto simp: hawkeye_wf_def\<close>)
  then show ?thesis by (auto simp: Hawkeye_cache)
next
  case (FA_cache b)
  have "\<exists>c' calls. fa_access b addr bytes store = Inr (c', calls)"
    by (rule fa_access_total) (use ok FA_cache in auto)
  then show ?thesis by (auto simp: FA_cache)
qed

text \<open>
  C5. Two consecutive accesses whose addresses fall in the same line
  (\<open>addr >> idx_shift\<close> equal), to a cache of any policy, with any sizes and store
  flags: when the first returns, the lookup of the second address finds the line, the
  second access returns without a downstream call, and it leaves both miss counters as
  they were.
\<close>

theorem second_access_same_line_hits:
  assumes wf: "wf_any c"
    and first: "access_any E c (pc1, a1, b1, s1) = Inr (c1, calls1)"
    and line: "drop_bit (idx_shift (base_of c)) a1 = drop_bit (idx_shift (base_of c)) a2"
  shows "is_hit c1 a2 \<and>
         (\<exists>c2. access_any E c1 (pc2, a2, b2, s2) = Inr (c2, []) \<and>
            read_misses (base_of c2) = read_misses (base_of c1) \<and>
            write_misses (base_of c2) = write_misses (base_of c1))"
proof -
  note p = access_any_props [OF wf first]
  then have wf1: "wf_any c1" and h1: "is_hit c1 a1"
    and sh: "idx_shift (base_of c1) = idx_shift (base_of c)" by simp_all
  have h2: "is_hit c1 a2" using h1 is_hit_same_line [of c1 a1 a2] line sh by simp
  from access_any_total [OF wf1, of a2 E pc2 b2 s2] h2 obtain c2 calls2
    where second: "access_any E c1 (pc2, a2, b2, s2) = Inr (c2, calls2)" by blast
  from access_any_props [OF wf1 second] h2 have "calls2 = []"
    "read_misses (base_of c2) = read_misses (base_of c1)"
    "write_misses (base_of c2) = write_misses (base_of c1)" by simp_all
  with h2 second show ?thesis by blast
qed

text \<open>
  C4. An access to a cache with a miss handler wired: every call it makes on the
  handler has an address that is a multiple of \<open>linesz\<close> and a byte count of \<open>linesz\<close>.
  A hit makes no call. A miss makes the fill call, with \<open>store\<close> false, preceded by the
  writeback call, with \<open>store\<close> true, exactly when the victim is VALID and DIRTY; the
  victim is the tag word that the access took out of the cache, and the writeback
  address is its payload shifted left by \<open>idx_shift\<close>.
\<close>

theorem downstream_calls_line_aligned:
  assumes wf: "wf_any c" and mh: "miss_handler (base_of c)"
    and run: "access_any E c (pc, addr, bytes, store) = Inr (c', calls)"
  shows "(\<forall>call \<in> set calls. linesz (base_of c) dvd unat (fst call) \<and>
            fst (snd call) = linesz (base_of c)) \<and>
         (if is_hit c addr then calls = []
          else \<exists>victim. evicted c addr store victim c' \<and> calls =
            (if valid_dirty victim
             then [(push_bit (idx_shift (base_of c)) (victim AND NOT (VALID OR DIRTY)),
                    linesz (base_of c), True)]
             else []) @
            [(addr AND NOT (of_nat (linesz (base_of c)) - 1), linesz (base_of c), False)])"
proof -
  note p = access_any_props [OF wf run]
  have wb: "wf_cache (base_of c)" using wf by (rule wf_any_base)
  show ?thesis
  proof (cases "is_hit c addr")
    case True
    then show ?thesis using p by simp
  next
    case False
    from access_any_miss_evicted [OF wf run False] obtain victim where
      ev: "evicted c addr store victim c'" and
      calls: "calls = writeback_calls (base_of c) victim @ fill_calls (base_of c) addr" by blast
    have al: "\<forall>call \<in> set calls. linesz (base_of c) dvd unat (fst call) \<and>
        fst (snd call) = linesz (base_of c)"
      unfolding calls using calls_aligned [OF wb] by blast
    have "calls = (if valid_dirty victim
             then [(push_bit (idx_shift (base_of c)) (victim AND NOT (VALID OR DIRTY)),
                    linesz (base_of c), True)]
             else []) @
            [(addr AND NOT (of_nat (linesz (base_of c)) - 1), linesz (base_of c), False)]"
      using mh by (simp add: calls writeback_calls_def fill_calls_def)
    with al False ev show ?thesis by auto
  qed
qed

lemma wf_any_cache_2_2_64: "wf_any (Default_cache (cache_2_2_64 nm))"
  using construct_wf [OF construct_2_2_64] by simp

theorem tag_payloads_unique_witness:
  "construct (example_deps 2) ''2:2:64'' [] = Inr (Default_cache (cache_2_2_64 [])) \<and>
   wf_any (Default_cache (cache_2_2_64 []) :: (spec_OPTgen, nat \<Rightarrow> nat) cache) \<and>
   no_dup_any (Default_cache (cache_2_2_64 []) :: (spec_OPTgen, nat \<Rightarrow> nat) cache) \<and>
   accesses (example_deps 2) (Default_cache (cache_2_2_64 []))
     [(0, 0, 8, False), (0, 0, 8, True), (0, 0, 8, False)] =
     Inr (Default_cache (cache_2_2_64_after_S5 [])) \<and>
   no_dup_any (Default_cache (cache_2_2_64_after_S5 []) :: (spec_OPTgen, nat \<Rightarrow> nat) cache)"
proof -
  note t = tag_payloads_unique [of "example_deps 2" "''2:2:64''" "[]" "Default_cache (cache_2_2_64 [])"
      "[(0, 0, 8, False), (0, 0, 8, True), (0, 0, 8, False)]"
      "Default_cache (cache_2_2_64_after_S5 [])"]
  have c: "construct (example_deps 2) ''2:2:64'' [] = Inr (Default_cache (cache_2_2_64 []))"
    by (rule construct_2_2_64)
  have r: "accesses (example_deps 2) (Default_cache (cache_2_2_64 []))
      [(0, 0, 8, False), (0, 0, 8, True), (0, 0, 8, False)] =
      Inr (Default_cache (cache_2_2_64_after_S5 []))"
    by (rule S5_accesses)
  from t c r show ?thesis by blast
qed

theorem second_access_same_line_hits_witness:
  "wf_any (Default_cache (cache_2_2_64 []) :: (spec_OPTgen, nat \<Rightarrow> nat) cache) \<and>
   access_any (example_deps 2) (Default_cache (cache_2_2_64 [])) (0, 0, 8, False) =
     Inr (Default_cache (cache_2_2_64_after_first []), []) \<and>
   is_hit (Default_cache (cache_2_2_64_after_first []) :: (spec_OPTgen, nat \<Rightarrow> nat) cache) 4 \<and>
   (\<exists>c2. access_any (example_deps 2) (Default_cache (cache_2_2_64_after_first [])) (0, 4, 4, True) =
           Inr (c2, []) \<and>
         read_misses (base_of c2) = 1 \<and> write_misses (base_of c2) = 0)"
proof -
  let ?c = "Default_cache (cache_2_2_64 []) :: (spec_OPTgen, nat \<Rightarrow> nat) cache"
  let ?c1 = "Default_cache (cache_2_2_64_after_first []) :: (spec_OPTgen, nat \<Rightarrow> nat) cache"
  have w: "wf_any ?c"
    by (rule wf_any_cache_2_2_64)
  have f: "access_any (example_deps 2) ?c (0, 0, 8, False) = Inr (?c1, [])"
    by (simp add: S5_first)
  have l: "drop_bit (idx_shift (base_of ?c)) (0 :: 64 word) = drop_bit (idx_shift (base_of ?c)) (4 :: 64 word)"
    by (simp add: cache_2_2_64_def cache_sim_t.truncate_def)
  have m: "read_misses (base_of ?c1) = 1" "write_misses (base_of ?c1) = 0"
    by (simp_all add: cache_2_2_64_after_first_def)
  from second_access_same_line_hits [OF w f l, of 0 4 True] w f m show ?thesis by simp
qed

lemma wf_cache_1_1_64_dirty: "wf_cache (cache_1_1_64_dirty nm)"
  by (simp add: wf_cache_def cache_1_1_64_dirty_def idx_shift_loop_64)

lemma dirty_victim_access:
  "access (cache_1_1_64_dirty nm) 0x40 8 False =
     Inr ((cache_1_1_64_dirty nm)\<lparr>lfsr := 0xb8000001, tags := [0x8000000000000001],
            read_accesses := 1, read_misses := 1, bytes_read := 8, writebacks := 1\<rparr>,
          [(0, 64, True), (0x40, 64, False)])"
  by (simp add: access_eval cache_1_1_64_dirty_def)

lemma dirty_victim_miss: "check_tag (cache_1_1_64_dirty nm) 0x40 = None"
  by (simp add: check_tag_def cache_1_1_64_dirty_def set_index_def line_tag_def VALID_def DIRTY_def
      upt_conv_Cons)

lemma evicted_dirty_only:
  "evicted (Default_cache (cache_1_1_64_dirty nm)) 0x40 False victim c' \<Longrightarrow> victim = 0xC000000000000000"
  by (simp add: array_evicted_def cache_1_1_64_dirty_def set_index_def upt_conv_Cons)

theorem downstream_calls_line_aligned_witness:
  "wf_any (Default_cache (cache_1_1_64_dirty []) :: (spec_OPTgen, nat \<Rightarrow> nat) cache) \<and>
   miss_handler (base_of (Default_cache (cache_1_1_64_dirty []) :: (spec_OPTgen, nat \<Rightarrow> nat) cache)) \<and>
   \<not> is_hit (Default_cache (cache_1_1_64_dirty []) :: (spec_OPTgen, nat \<Rightarrow> nat) cache) 0x40 \<and>
   access_any (example_deps 1) (Default_cache (cache_1_1_64_dirty [])) (0, 0x40, 8, False) =
     Inr (Default_cache ((cache_1_1_64_dirty [])\<lparr>lfsr := 0xb8000001, tags := [0x8000000000000001],
            read_accesses := 1, read_misses := 1, bytes_read := 8, writebacks := 1\<rparr>),
          [(0, 64, True), (0x40, 64, False)]) \<and>
   list_all (\<lambda>call. (64 :: nat) dvd unat (fst call) \<and> fst (snd call) = 64)
     [(0 :: 64 word, 64 :: nat, True), (0x40, 64, False)] \<and>
   (\<exists>victim. evicted (Default_cache (cache_1_1_64_dirty []) :: (spec_OPTgen, nat \<Rightarrow> nat) cache)
        0x40 False victim
        (Default_cache ((cache_1_1_64_dirty [])\<lparr>lfsr := 0xb8000001, tags := [0x8000000000000001],
            read_accesses := 1, read_misses := 1, bytes_read := 8, writebacks := 1\<rparr>)) \<and>
      victim = 0xC000000000000000 \<and> valid_dirty victim \<and>
      [(0 :: 64 word, 64 :: nat, True), (0x40, 64, False)] =
        [(push_bit 6 (victim AND NOT (VALID OR DIRTY)), 64, True), (0x40 AND NOT (of_nat 64 - 1), 64, False)])"
proof -
  let ?c = "Default_cache (cache_1_1_64_dirty []) :: (spec_OPTgen, nat \<Rightarrow> nat) cache"
  let ?c' = "Default_cache ((cache_1_1_64_dirty [])\<lparr>lfsr := 0xb8000001, tags := [0x8000000000000001],
            read_accesses := 1, read_misses := 1, bytes_read := 8, writebacks := 1\<rparr>)
            :: (spec_OPTgen, nat \<Rightarrow> nat) cache"
  let ?calls = "[(0 :: 64 word, 64 :: nat, True), (0x40, 64, False)]"
  have w: "wf_any ?c" by (simp add: wf_cache_1_1_64_dirty)
  have mh: "miss_handler (base_of ?c)" by (simp add: cache_1_1_64_dirty_def)
  have m: "\<not> is_hit ?c 0x40" by (simp add: dirty_victim_miss)
  have r: "access_any (example_deps 1) ?c (0, 0x40, 8, False) = Inr (?c', ?calls)"
    by (simp add: dirty_victim_access)
  have l: "linesz (base_of ?c) = 64" "idx_shift (base_of ?c) = 6"
    by (simp_all add: cache_1_1_64_dirty_def)
  note t = downstream_calls_line_aligned [OF w mh r]
  from t have "\<forall>call \<in> set ?calls. (64 :: nat) dvd unat (fst call) \<and> fst (snd call) = 64"
    unfolding l by (rule conjunct1)
  then have al: "list_all (\<lambda>call. (64 :: nat) dvd unat (fst call) \<and> fst (snd call) = 64) ?calls"
    by (simp only: list_all_iff)
  from t m obtain victim where ev: "evicted ?c 0x40 False victim ?c'"
    and cl: "?calls = (if valid_dirty victim
             then [(push_bit 6 (victim AND NOT (VALID OR DIRTY)), 64, True)] else []) @
            [(0x40 AND NOT (of_nat 64 - 1), 64, False)]"
    unfolding l by auto
  have v: "victim = 0xC000000000000000" using ev by (rule evicted_dirty_only)
  have vd: "valid_dirty victim" using cl by (cases "valid_dirty victim") simp_all
  have "?calls = [(push_bit 6 (victim AND NOT (VALID OR DIRTY)), 64, True),
      (0x40 AND NOT (of_nat 64 - 1), 64, False)]"
    using cl vd by (simp only: if_True append_Cons append_Nil)
  with ev v vd have "\<exists>victim. evicted ?c 0x40 False victim ?c' \<and>
      victim = 0xC000000000000000 \<and> valid_dirty victim \<and>
      ?calls = [(push_bit 6 (victim AND NOT (VALID OR DIRTY)), 64, True),
        (0x40 AND NOT (of_nat 64 - 1), 64, False)]" by blast
  with w mh m r al show ?thesis by (intro conjI)
qed

lemma fa_victimize_not_full:
  assumes "length (fa_tags c) \<noteq> ways c"
  shows "fa_victimize c addr =
     Inr (0, c\<lparr>fa_tags := map_set (drop_bit (idx_shift c) addr)
                   (drop_bit (idx_shift c) addr OR VALID) (fa_tags c)\<rparr>)"
  using assms by (simp add: fa_victimize_def Let_def)

text \<open>
  C10. \<open>fa_cache_sim_t::victimize\<close> returns 0, a tag word without the VALID bit, whenever
  the map holds fewer than \<open>ways\<close> entries. So a miss in a fully-associative cache that
  is not yet full returns, leaves \<open>writebacks\<close> as it was, and its only downstream call,
  if a handler is wired, is the fill, which is no store.
\<close>

theorem fa_not_full_no_writeback:
  assumes "length (fa_tags c) < ways c"
  shows "map_sum id fst (fa_victimize c addr) = Inr 0 \<and>
         (fa_check_tag c addr = None \<longrightarrow>
            (\<exists>c'. fa_access c addr bytes store = Inr (c', fill_calls c addr) \<and>
                  writebacks c' = writebacks c) \<and>
            (\<forall>call \<in> set (fill_calls c addr). \<not> snd (snd call)))"
proof -
  from assms have ne: "length (fa_tags c) \<noteq> ways c" by simp
  have v: "map_sum id fst (fa_victimize c addr) = Inr 0"
    by (simp add: fa_victimize_not_full [OF ne])
  have st: "\<forall>call \<in> set (fill_calls c addr). \<not> snd (snd call)"
    by (simp add: fill_calls_def)
  have acc: "\<exists>c'. fa_access c addr bytes store = Inr (c', fill_calls c addr) \<and>
                  writebacks c' = writebacks c" if miss: "fa_check_tag c addr = None"
  proof -
    let ?cm = "count_miss (count_access c bytes store) store"
    let ?k = "drop_bit (idx_shift c) addr"
    let ?c2 = "?cm\<lparr>fa_tags := map_set ?k (?k OR VALID) (fa_tags c)\<rparr>"
    have ct: "fa_check_tag (count_access c bytes store) addr = None"
      using miss fa_check_tag_cong [of "count_access c bytes store" c addr] by simp
    have vv: "fa_victimize ?cm addr = Inr (0, ?c2)"
      using fa_victimize_not_full [of ?cm addr] ne by simp
    have cw: "count_writeback x 0 = x" "writeback_calls x 0 = []" for x :: fa_cache_sim_t
      by (simp_all add: count_writeback_def writeback_calls_def valid_dirty_zero)
    have fc: "fill_calls (count_miss (count_access c bytes s) s\<lparr>fa_tags := m\<rparr>) addr = fill_calls c addr"
      for s m by (simp add: fill_calls_def)
    have ct2: "fa_check_tag (count_miss (count_access c bytes s) s
        \<lparr>fa_tags := map_set ?k (?k OR VALID) (fa_tags c)\<rparr>) addr = Some ?k" for s
      by (simp add: fa_check_tag_def map_of_map_set)
    have "fa_access c addr bytes store =
        Inr (if store then fa_or_dirty ?k ?c2 else ?c2, fill_calls c addr)"
      by (simp add: fa_access_def access_with_def ct vv cw fc ct2 Let_def)
    moreover have "writebacks (if store then fa_or_dirty ?k ?c2 else ?c2) = writebacks c" by simp
    ultimately show ?thesis by blast
  qed
  from v st acc show ?thesis by blast
qed

lemma fa_new_8_64: "fa_cache_sim_t_new 8 64 nm = Inr (cache_fa_8_64 nm)"
  by (simp add: fa_cache_sim_t_new_def cache_sim_t_new_def idx_shift_loop_64 lfsr_new_def
      replicate_numeral_Cons cache_fa_8_64_def cache_sim_t.extend_def)

theorem fa_not_full_no_writeback_witness:
  "fa_cache_sim_t_new 8 64 [] = Inr (cache_fa_8_64 []) \<and>
   length (fa_tags (cache_fa_8_64 [])) < ways (cache_fa_8_64 []) \<and>
   fa_check_tag (cache_fa_8_64 []) 0x1000 = None \<and>
   map_sum id fst (fa_victimize (cache_fa_8_64 []) 0x1000) = Inr 0 \<and>
   (\<exists>c'. fa_access (cache_fa_8_64 []) 0x1000 8 True = Inr (c', fill_calls (cache_fa_8_64 []) 0x1000) \<and>
         writebacks c' = writebacks (cache_fa_8_64 []))"
proof -
  have l: "length (fa_tags (cache_fa_8_64 [])) < ways (cache_fa_8_64 [])"
    by (simp add: cache_fa_8_64_def)
  have m: "fa_check_tag (cache_fa_8_64 []) 0x1000 = None"
    by (simp add: fa_check_tag_def cache_fa_8_64_def)
  from fa_not_full_no_writeback [OF l, of "0x1000" 8 True] l m fa_new_8_64 [of "[]"]
  show ?thesis by blast
qed






text \<open>
  C2. The copy constructor gives the copy the tag words of the original, \<open>sets * ways\<close>
  of them, in an array of its own. The seven statistics counters are not among the
  members it writes: each keeps the value the storage of the new object held. Built in
  the storage that held the cache of scenario S5 after its accesses, the copy of a fresh
  cache starts with \<open>read_accesses = 2\<close>, not 0.
\<close>

theorem copy_constructor_leaves_counters:
  "tags (cache_sim_t_copy raw rhs) = map (\<lambda>i. tags rhs ! i) [0..<sets rhs * ways rhs] \<and>
   read_accesses (cache_sim_t_copy raw rhs) = read_accesses raw \<and>
   read_misses (cache_sim_t_copy raw rhs) = read_misses raw \<and>
   bytes_read (cache_sim_t_copy raw rhs) = bytes_read raw \<and>
   write_accesses (cache_sim_t_copy raw rhs) = write_accesses raw \<and>
   write_misses (cache_sim_t_copy raw rhs) = write_misses raw \<and>
   bytes_written (cache_sim_t_copy raw rhs) = bytes_written raw \<and>
   writebacks (cache_sim_t_copy raw rhs) = writebacks raw \<and>
   tags (cache_sim_t_copy (cache_2_2_64_after_S5 nm) (cache_2_2_64 nm)) = tags (cache_2_2_64 nm) \<and>
   read_accesses (cache_sim_t_copy (cache_2_2_64_after_S5 nm) (cache_2_2_64 nm)) = 2 \<and>
   bytes_read (cache_sim_t_copy (cache_2_2_64_after_S5 nm) (cache_2_2_64 nm)) = 16"
  by (simp add: cache_sim_t_copy_def cache_2_2_64_def cache_2_2_64_after_S5_def upt_conv_Cons)

section \<open>Hawkeye: the sampler, the timer and the training of the predictor\<close>

subsection \<open>Collaborators that record their calls\<close>

lemma traced_fields [simp]:
  "TIMER_SIZE (traced E) = TIMER_SIZE E"
  "OPTGEN_VECTOR_SIZE (traced E) = OPTGEN_VECTOR_SIZE E"
  "add_access (traced E) og q = (add_access E (fst og) q, snd og @ [q])"
  "snd (should_cache (traced E) og cq lq) = (snd (should_cache E (fst og) cq lq), snd og)"
  "fst (should_cache (traced E) og cq lq) = fst (should_cache E (fst og) cq lq)"
  "increment (traced E) p x = (increment E (fst p) x, snd p @ [Increment x])"
  "decrement (traced E) p x = (decrement E (fst p) x, snd p @ [Decrement x])"
  "get_prediction (traced E) p x = get_prediction E (fst p) x"
  by (simp_all add: traced_def)




subsection \<open>victimize\<close>


subsection \<open>check_tag\<close>




subsection \<open>A store that misses\<close>

lemma hawkeye_fields_count [simp]:
  "perset_timer (count_access c b s) = perset_timer c" "perset_optgen (count_access c b s) = perset_optgen c"
  "addr_history (count_access c b s) = addr_history c" "demand_predictor (count_access c b s) = demand_predictor c"
  "rrpv (count_access c b s) = rrpv c" "signatures (count_access c b s) = signatures c"
  "perset_timer (count_miss c s) = perset_timer c" "perset_optgen (count_miss c s) = perset_optgen c"
  "addr_history (count_miss c s) = addr_history c" "demand_predictor (count_miss c s) = demand_predictor c"
  "rrpv (count_miss c s) = rrpv c" "signatures (count_miss c s) = signatures c"
  "perset_timer (count_writeback c v) = perset_timer c" "perset_optgen (count_writeback c v) = perset_optgen c"
  "addr_history (count_writeback c v) = addr_history c" "demand_predictor (count_writeback c v) = demand_predictor c"
  "rrpv (count_writeback c v) = rrpv c" "signatures (count_writeback c v) = signatures c"
  "perset_timer (or_dirty p c) = perset_timer c" "perset_optgen (or_dirty p c) = perset_optgen c"
  "addr_history (or_dirty p c) = addr_history c" "demand_predictor (or_dirty p c) = demand_predictor c"
  "rrpv (or_dirty p c) = rrpv c" "signatures (or_dirty p c) = signatures c"
  by (simp_all add: count_access_def count_miss_def count_writeback_def or_dirty_def)



subsection \<open>The cache 1:1:64:hawkeye\<close>

lemma construct_hawkeye_1_1_64:
  "construct (traced (example_deps 1)) ''1:1:64:hawkeye'' nm = Inr (Hawkeye_cache (hawkeye_1_1_64 nm))"
  by (simp add: construct_def config_fields_def atoi_def isspace_def isdigit_def size_t_of_int_def
      hawkeye_cache_sim_t_new_def cache_sim_t_new_def idx_shift_loop_64 lfsr_new_def
      cache_sim_t.extend_def hawkeye_1_1_64_def traced_def example_deps_def spec_deps_def
      spec_OPTgen_init_def MAX_RRPV_def)

lemma unat_minus_1_pos: "0 < unat (- 1 :: 64 word)"
proof -
  have "(- 1 :: 64 word) \<noteq> 0" by simp
  then show ?thesis by (simp only: unat_gt_0 simp_thms)
qed

lemmas hawkeye_eval =
  hawkeye_access_def access_with_def hawkeye_check_tag_def hawkeye_victimize_def sampler_step_def
  last_way_loop_def lru_victim_loop_def rrpv_after_evict_def replace_addr_history_element_def
  update_addr_history_lru_def map_modify_def map_erase_def
  traced_def example_deps_def spec_deps_def spec_increment_def spec_decrement_def
  spec_get_prediction_def spec_add_access_def spec_should_cache_def ring_interval_def
  spec_ADDR_INFO_init_def spec_ADDR_INFO_update_def MAX_RRPV_def
  check_tag_def or_dirty_def set_index_def line_tag_def VALID_def DIRTY_def Let_def
  count_access_def count_miss_def count_writeback_def writeback_calls_def fill_calls_def
  valid_dirty_def upt_conv_Cons

lemma store_miss:
  "hawkeye_access (traced (example_deps 1)) 0x100 (hawkeye_1_1_64 nm) 0 8 True =
     Inr (hawkeye_1_1_64_after_store nm, [])"
  by (simp add: hawkeye_eval hawkeye_1_1_64_def hawkeye_1_1_64_after_store_def unat_minus_1_pos)

lemma evicting_miss:
  "hawkeye_access (traced (example_deps 1)) 0x200 (hawkeye_1_1_64_after_store nm) 0x40 8 False =
     Inr (hawkeye_1_1_64_after_evict nm, [])"
  by (simp add: hawkeye_eval hawkeye_1_1_64_after_store_def hawkeye_1_1_64_after_evict_def
      unat_minus_1_pos)




lemma victimize_after_store:
  "map_sum id (\<lambda>(victim, c'). (victim, signatures c', snd (demand_predictor c'),
       fst (demand_predictor c') 0x100, fst (demand_predictor c') 0x200))
     (hawkeye_victimize (traced (example_deps 1)) 0x200 (hawkeye_1_1_64_after_store nm) 0x40)
   = Inr (0xC000000000000000, [[0x200]], [Increment 0x100, Decrement 0x200], 5, 3)"
  by (simp add: hawkeye_eval hawkeye_1_1_64_after_store_def)

text \<open>
  C1. \<open>hawkeye_cache_sim_t::victimize\<close>, when no way of the set is at \<open>MAX_RRPV\<close>: the
  claim is that the counter decremented is the one of the signature that the evicted way
  held before the eviction. In the cache \<open>1:1:64:hawkeye\<close> after a store by pc \<open>0x100\<close> the
  only way holds the signature \<open>0x100\<close> with \<open>rrpv = 0\<close>; a miss by pc \<open>0x200\<close> evicts it,
  and \<open>victimize\<close> decrements the counter of \<open>0x200\<close>, the pc of the access, from 4 to 3
  and leaves the counter of \<open>0x100\<close> at 5: \<open>signatures[set][way] = PC\<close> is written before
  \<open>decrement(signatures[set][lru_victim])\<close> reads it.
\<close>

theorem victimize_decrements_access_pc:
  "construct (traced (example_deps 1)) ''1:1:64:hawkeye'' ''L1''
     = Inr (Hawkeye_cache (hawkeye_1_1_64 ''L1'')) \<and>
   hawkeye_access (traced (example_deps 1)) 0x100 (hawkeye_1_1_64 ''L1'') 0 8 True
     = Inr (hawkeye_1_1_64_after_store ''L1'', []) \<and>
   signatures (hawkeye_1_1_64_after_store ''L1'') = [[0x100]] \<and>
   rrpv (hawkeye_1_1_64_after_store ''L1'') = [[0]] \<and>
   demand_predictor (hawkeye_1_1_64_after_store ''L1'') = ((\<lambda>i. 4)(0x100 := 5), [Increment 0x100]) \<and>
   map_sum id (\<lambda>(victim, c'). (victim, signatures c', snd (demand_predictor c'),
       fst (demand_predictor c') 0x100, fst (demand_predictor c') 0x200))
     (hawkeye_victimize (traced (example_deps 1)) 0x200 (hawkeye_1_1_64_after_store ''L1'') 0x40)
     = Inr (0xC000000000000000, [[0x200]], [Increment 0x100, Decrement 0x200], 5, 3) \<and>
   hawkeye_access (traced (example_deps 1)) 0x200 (hawkeye_1_1_64_after_store ''L1'') 0x40 8 False
     = Inr (hawkeye_1_1_64_after_evict ''L1'', []) \<and>
   snd (demand_predictor (hawkeye_1_1_64_after_evict ''L1'')) = [Increment 0x100, Decrement 0x200]"
proof -
  have "signatures (hawkeye_1_1_64_after_store ''L1'') = [[0x100]]"
    "rrpv (hawkeye_1_1_64_after_store ''L1'') = [[0]]"
    "demand_predictor (hawkeye_1_1_64_after_store ''L1'') = ((\<lambda>i. 4)(0x100 := 5), [Increment 0x100])"
    by (simp_all add: hawkeye_1_1_64_after_store_def)
  moreover have "snd (demand_predictor (hawkeye_1_1_64_after_evict ''L1''))
      = [Increment 0x100, Decrement 0x200]"
    by (simp add: hawkeye_1_1_64_after_evict_def)
  ultimately show ?thesis
    using construct_hawkeye_1_1_64 [of "''L1''"] store_miss [of "''L1''"]
      victimize_after_store [of "''L1''"] evicting_miss [of "''L1''"]
    by (intro conjI)
qed

end
